theory Spec2Isabelle
  imports Main
begin

section \<open>Benchmark workflows and the instrumentation bootstrap\<close>

text \<open>
  The benchmark file declares steps (functions marked \<^verbatim>\<open>'use step'\<close>) and workflows
  (functions marked \<^verbatim>\<open>'use workflow'\<close>) that compose them. A workflow is embedded as a
  function that threads a journal: the list of the steps it has started, in start order.

  A JavaScript number is a double. The model has the integers in their place, and
  agrees with the code where every number involved is a safe integer (\<open>safe_integer\<close>,
  the test \<^verbatim>\<open>Number.isSafeInteger\<close>): there the sums and products of doubles are the
  sums and products of integers, and the text of a number is its decimal digits. The one
  not-a-number value the code can produce, the result of \<^verbatim>\<open>parseInt\<close> on a text without
  leading digits, is modelled by \<open>None\<close>. Properties of arithmetic are stated for safe
  integers only.

  A \<^verbatim>\<open>Uint8Array\<close> and a JavaScript string are both modelled as a \<open>string\<close>, a list of
  8-bit characters; a text is identified with its UTF-8 bytes. The model agrees with the
  code on ASCII chunks (\<open>ascii\<close>), and properties of texts are stated for these only.
\<close>

definition safe_integer :: "int \<Rightarrow> bool" where
  "safe_integer n = (- (2 ^ 53 - 1) \<le> n \<and> n \<le> 2 ^ 53 - 1)"

definition ascii :: "string \<Rightarrow> bool" where
  "ascii s = list_all (\<lambda>c. (of_char c :: nat) < 128) s"

subsection \<open>Steps, promises and the journal\<close>

datatype step_call = DoWork | GenBenchStream | DoubleNumbers | StressTestStep int

type_synonym journal = "step_call list"

text \<open>
  Calling a step starts it and hands back a promise for its result. The steps of this file
  cannot fail, so a promise is known by the step it comes from and by the value it fulfils
  with. Awaiting the promise gives that value.
\<close>

datatype 'a promise = Promise (origin: step_call) (outcome: 'a)

definition await :: "'a promise \<Rightarrow> 'a" where
  "await p = outcome p"

text \<open>\<^verbatim>\<open>async function doWork() { 'use step'; return 42; }\<close>\<close>

definition doWork :: "journal \<Rightarrow> int promise \<times> journal" where
  "doWork j = (Promise DoWork 42, j @ [DoWork])"

text \<open>\<^verbatim>\<open>async function stressTestStep(i: number) { 'use step'; return i; }\<close>\<close>

definition stressTestStep :: "int \<Rightarrow> journal \<Rightarrow> int promise \<times> journal" where
  "stressTestStep i j = (Promise (StressTestStep i) i, j @ [StressTestStep i])"

text \<open>
  \<^verbatim>\<open>Promise.all\<close> waits until every promise of the array is fulfilled and fulfils with the
  array of their values, at the positions of the promises in the input array, whatever
  the order in which they were fulfilled.
\<close>

definition promise_all :: "'a promise list \<Rightarrow> 'a list" where
  "promise_all ps = map outcome ps"

subsection \<open>Workflows without fan-out\<close>

text \<open>
  \<^verbatim>\<open>
  export async function noStepsWorkflow(input: number) {
    'use workflow';
    return input * 2;
  }
  export async function oneStepWorkflow(input: number) {
    'use workflow';
    const result = await doWork();
    return result + input;
  }
  \<close>
\<close>

definition noStepsWorkflow :: "int \<Rightarrow> int \<times> journal" where
  "noStepsWorkflow input = (input * 2, [])"

definition oneStepWorkflow :: "int \<Rightarrow> int \<times> journal" where
  "oneStepWorkflow input =
     (let (p, j) = doWork [];
          result = await p
      in (result + input, j))"

text \<open>
  \<^verbatim>\<open>
  export async function tenSequentialStepsWorkflow() {
    'use workflow';
    let result = 0;
    for (let i = 0; i < 10; i++) {
      result = await doWork();
    }
    return result;
  }
  \<close>
  The loop is a recursive function of the loop variable, the variable \<^verbatim>\<open>result\<close> and the
  journal.
\<close>

function tenSequentialSteps_loop :: "int \<Rightarrow> int \<Rightarrow> journal \<Rightarrow> int \<times> journal" where
  "tenSequentialSteps_loop i result j =
     (if i < 10
      then tenSequentialSteps_loop (i + 1) (await (fst (doWork j))) (snd (doWork j))
      else (result, j))"
  by pat_completeness auto
termination
  by (relation "measure (\<lambda>(i, result, j). nat (10 - i))") auto

definition tenSequentialStepsWorkflow :: "int \<times> journal" where
  "tenSequentialStepsWorkflow = tenSequentialSteps_loop 0 0 []"

subsection \<open>Fan-out and fan-in\<close>

text \<open>
  \<^verbatim>\<open>
  export async function tenParallelStepsWorkflow() {
    'use workflow';
    const promises = [];
    for (let i = 0; i < 10; i++) {
      promises.push(doWork());
    }
    const results = await Promise.all(promises);
    return results.reduce((sum, val) => sum + val, 0);
  }
  \<close>
\<close>

function tenParallelSteps_loop ::
  "int \<Rightarrow> int promise list \<Rightarrow> journal \<Rightarrow> int promise list \<times> journal" where
  "tenParallelSteps_loop i promises j =
     (if i < 10
      then tenParallelSteps_loop (i + 1) (promises @ [fst (doWork j)]) (snd (doWork j))
      else (promises, j))"
  by pat_completeness auto
termination
  by (relation "measure (\<lambda>(i, promises, j). nat (10 - i))") auto

definition tenParallelStepsWorkflow :: "int \<times> journal" where
  "tenParallelStepsWorkflow =
     (let (promises, j) = tenParallelSteps_loop 0 [] [];
          results = promise_all promises
      in (foldl (\<lambda>sum val. sum + val) 0 results, j))"

text \<open>
  \<^verbatim>\<open>
  export async function promiseAllStressTestWorkflow(count: number) {
    'use workflow';
    const promises: Promise<number>[] = [];
    for (let i = 0; i < count; i++) {
      promises.push(stressTestStep(i));
    }
    const results = await Promise.all(promises);
    return results.length;
  }
  \<close>
  The function that gives the awaited array is kept apart from the workflow, which only
  returns its length.
\<close>

function promiseAllStressTest_loop ::
  "int \<Rightarrow> int \<Rightarrow> int promise list \<Rightarrow> journal \<Rightarrow> int promise list \<times> journal" where
  "promiseAllStressTest_loop i count promises j =
     (if i < count
      then promiseAllStressTest_loop (i + 1) count
             (promises @ [fst (stressTestStep i j)]) (snd (stressTestStep i j))
      else (promises, j))"
  by pat_completeness auto
termination
  by (relation "measure (\<lambda>(i, count, promises, j). nat (count - i))") auto

definition promiseAllStressTest_results :: "int \<Rightarrow> int list \<times> journal" where
  "promiseAllStressTest_results count =
     (let (promises, j) = promiseAllStressTest_loop 0 count [] []
      in (promise_all promises, j))"

definition promiseAllStressTestWorkflow :: "int \<Rightarrow> int \<times> journal" where
  "promiseAllStressTestWorkflow count =
     (let (results, j) = promiseAllStressTest_results count
      in (int (length results), j))"

subsection \<open>Progressive draining with a tracking map\<close>

text \<open>
  A JavaScript \<^verbatim>\<open>Map\<close> keeps its entries in insertion order with one entry per key, so it
  is an association list. \<^verbatim>\<open>set\<close> replaces the value of a key that is present and
  adds a new key at the end; \<^verbatim>\<open>delete\<close> removes the entry of the key, and changes
  nothing when the key is absent; \<^verbatim>\<open>values()\<close> lists the values in insertion order.
\<close>

type_synonym ('k, 'v) js_map = "('k \<times> 'v) list"

fun map_set :: "'k \<Rightarrow> 'v \<Rightarrow> ('k, 'v) js_map \<Rightarrow> ('k, 'v) js_map" where
  "map_set k v [] = [(k, v)]"
| "map_set k v ((k', v') # m) = (if k' = k then (k, v) # m else (k', v') # map_set k v m)"

fun map_delete :: "'k \<Rightarrow> ('k, 'v) js_map \<Rightarrow> ('k, 'v) js_map" where
  "map_delete k [] = []"
| "map_delete k ((k', v') # m) = (if k' = k then m else (k', v') # map_delete k m)"

definition map_values :: "('k, 'v) js_map \<Rightarrow> 'v list" where
  "map_values m = map snd m"

definition map_size :: "('k, 'v) js_map \<Rightarrow> int" where
  "map_size m = int (length m)"

text \<open>
  \<^verbatim>\<open>Promise.race\<close> fulfils with the value of whichever promise of the collection is
  fulfilled first. Which one that is depends on the orchestrator that runs the steps, so
  it is a parameter: a scheduler gives, for the \<open>n\<close>-th wait of a run, the position of
  the winner among the promises raced (taken modulo their number). Every choice of a
  member of the collection is covered by some scheduler. A race over no promise at all
  never settles, which is the value \<open>None\<close>.
\<close>

type_synonym scheduler = "nat \<Rightarrow> nat"

definition promise_race :: "scheduler \<Rightarrow> nat \<Rightarrow> 'a promise list \<Rightarrow> 'a option" where
  "promise_race sched n ps =
     (if ps = [] then None else Some (outcome (ps ! (sched n mod length ps))))"

text \<open>
  \<^verbatim>\<open>
  export async function promiseRaceStressTestLargeWorkflow(count: number) {
    'use workflow';
    const runningTasks = new Map<number, Promise<number>>();
    for (let i = 0; i < count; i++) {
      runningTasks.set(i, stressTestStep(i));
    }

    const done: number[] = [];
    while (runningTasks.size > 0) {
      const result = await Promise.race(runningTasks.values());
      done.push(result);
      runningTasks.delete(result);
    }

    return done.length;
  }
  \<close>
  The \<^verbatim>\<open>while\<close> loop has no bound in the source, so it is a partial function in the
  option monad: a run that never leaves the loop has the value \<open>None\<close>. Its state is the
  pair of \<^verbatim>\<open>runningTasks\<close> and \<^verbatim>\<open>done\<close>; \<open>drain_step\<close> is one execution of its body.
\<close>

function promiseRace_spawn_loop ::
  "int \<Rightarrow> int \<Rightarrow> (int, int promise) js_map \<Rightarrow> journal
     \<Rightarrow> (int, int promise) js_map \<times> journal" where
  "promiseRace_spawn_loop i count runningTasks j =
     (if i < count
      then promiseRace_spawn_loop (i + 1) count
             (map_set i (fst (stressTestStep i j)) runningTasks) (snd (stressTestStep i j))
      else (runningTasks, j))"
  by pat_completeness auto
termination
  by (relation "measure (\<lambda>(i, count, runningTasks, j). nat (count - i))") auto

definition drain_step ::
  "scheduler \<Rightarrow> nat \<Rightarrow> (int, int promise) js_map \<times> int list
     \<Rightarrow> ((int, int promise) js_map \<times> int list) option" where
  "drain_step sched n st =
     (case promise_race sched n (map_values (fst st)) of
        None \<Rightarrow> None
      | Some result \<Rightarrow> Some (map_delete result (fst st), snd st @ [result]))"

partial_function (option) drain_loop ::
  "scheduler \<Rightarrow> nat \<Rightarrow> (int, int promise) js_map \<times> int list
     \<Rightarrow> ((int, int promise) js_map \<times> int list) option" where
  "drain_loop sched n st =
     (if map_size (fst st) > 0
      then (case drain_step sched n st of
              None \<Rightarrow> None
            | Some st' \<Rightarrow> drain_loop sched (Suc n) st')
      else Some st)"

definition promiseRaceStressTestLargeWorkflow ::
  "scheduler \<Rightarrow> int \<Rightarrow> (int \<times> journal) option" where
  "promiseRaceStressTestLargeWorkflow sched count =
     (let (runningTasks, j) = promiseRace_spawn_loop 0 count [] []
      in case drain_loop sched 0 (runningTasks, []) of
           None \<Rightarrow> None
         | Some (runningTasks', done) \<Rightarrow> Some (int (length done), j))"

text \<open>
  In a \<open>keyed\<close> tracking map every promise fulfils with the key it is stored under. The
  keys of a \<^verbatim>\<open>Map\<close> are pairwise different (\<open>distinct (map fst m)\<close>).
\<close>

definition keyed :: "(int, int promise) js_map \<Rightarrow> bool" where
  "keyed m = (distinct (map fst m) \<and> list_all (\<lambda>(k, p). outcome p = k) m)"

subsection \<open>Streams of byte chunks\<close>

text \<open>
  A readable stream is known by the events a reader sees, in order: the chunks that were
  enqueued and then, once, the closure. The controller handed to the \<^verbatim>\<open>start\<close> and
  \<^verbatim>\<open>transform\<close> callbacks appends to these events.
\<close>

datatype stream_event = Chunk string | Close

type_synonym readable_stream = "stream_event list"

definition enqueue :: "string \<Rightarrow> readable_stream \<Rightarrow> readable_stream" where
  "enqueue chunk controller = controller @ [Chunk chunk]"

definition close :: "readable_stream \<Rightarrow> readable_stream" where
  "close controller = controller @ [Close]"

text \<open>
  \<^verbatim>\<open>TextEncoder.encode\<close> and \<^verbatim>\<open>TextDecoder.decode\<close> translate between a text and its
  UTF-8 bytes; on ASCII text, the only text these chunks hold, both keep every byte, and
  the decoder, used with \<^verbatim>\<open>stream: true\<close>, holds no byte back from one chunk to the next.
\<close>

definition encode :: "string \<Rightarrow> string" where
  "encode text = text"

definition decode :: "string \<Rightarrow> string" where
  "decode chunk = chunk"

definition newline :: char where
  "newline = CHR 0x0A"

text \<open>
  The text of a number inside a template literal: \<^verbatim>\<open>NaN\<close> for the not-a-number value,
  and the decimal digits of an integer, after a minus sign when it is negative. This is
  the text of the double for every safe integer.
\<close>

definition digit_char :: "nat \<Rightarrow> char" where
  "digit_char d = ''0123456789'' ! d"

fun string_of_nat :: "nat \<Rightarrow> string" where
  "string_of_nat n =
     (if n < 10 then [digit_char n] else string_of_nat (n div 10) @ [digit_char (n mod 10)])"

definition string_of_number :: "int option \<Rightarrow> string" where
  "string_of_number x =
     (case x of
        None \<Rightarrow> ''NaN''
      | Some n \<Rightarrow> if n < 0 then CHR ''-'' # string_of_nat (nat (- n)) else string_of_nat (nat n))"

text \<open>
  \<^verbatim>\<open>
  async function genBenchStream(): Promise<ReadableStream<Uint8Array>> {
    'use step';
    const encoder = new TextEncoder();
    return new ReadableStream<Uint8Array>({
      async start(controller) {
        for (let i = 0; i < 10; i++) {
          controller.enqueue(encoder.encode(`${i}\n`));
          // Small delay to avoid synchronous close issues on local world
          await new Promise((resolve) => setTimeout(resolve, 10));
        }
        controller.close();
      },
    });
  }
  \<close>
  The pause after each chunk changes no event and no order of events, so it has no
  counterpart in the model.
\<close>

function genBenchStream_start :: "int \<Rightarrow> readable_stream \<Rightarrow> readable_stream" where
  "genBenchStream_start i controller =
     (if i < 10
      then genBenchStream_start (i + 1)
             (enqueue (encode (string_of_number (Some i) @ [newline])) controller)
      else close controller)"
  by pat_completeness auto
termination
  by (relation "measure (\<lambda>(i, controller). nat (10 - i))") auto

definition genBenchStream :: "journal \<Rightarrow> readable_stream promise \<times> journal" where
  "genBenchStream j =
     (Promise GenBenchStream (genBenchStream_start 0 []), j @ [GenBenchStream])"

text \<open>
  \<^verbatim>\<open>text.split('\n')\<close> cuts a text at every newline; a text with \<open>k\<close> newlines gives
  \<open>k + 1\<close> segments, the last one empty when the text ends with a newline.
\<close>

fun split_from :: "string \<Rightarrow> string \<Rightarrow> string list" where
  "split_from cur [] = [cur]"
| "split_from cur (c # cs) =
     (if c = newline then cur # split_from [] cs else split_from (cur @ [c]) cs)"

definition split :: "string \<Rightarrow> string list" where
  "split text = split_from [] text"

text \<open>
  \<^verbatim>\<open>trim\<close> removes the white space at both ends of a text, and \<^verbatim>\<open>parseInt(line, 10)\<close>
  skips leading white space, reads an optional sign and then the longest run of decimal
  digits; with no digit there it gives the not-a-number value. Of the white space
  characters of JavaScript, the ASCII ones are modelled, and the number read is the
  double that \<^verbatim>\<open>parseInt\<close> gives whenever it is a safe integer.
\<close>

definition is_white_space :: "char \<Rightarrow> bool" where
  "is_white_space c =
     (c \<in> set [CHR 0x09, CHR 0x0A, CHR 0x0B, CHR 0x0C, CHR 0x0D, CHR '' ''])"

definition trim :: "string \<Rightarrow> string" where
  "trim s = rev (dropWhile is_white_space (rev (dropWhile is_white_space s)))"

definition is_digit :: "char \<Rightarrow> bool" where
  "is_digit c = (c \<in> set ''0123456789'')"

definition digit_value :: "char \<Rightarrow> nat" where
  "digit_value c = of_char c - 48"

definition parseInt :: "string \<Rightarrow> int option" where
  "parseInt string =
     (let S = dropWhile is_white_space string;
          sign = (if S \<noteq> [] \<and> hd S = CHR ''-'' then - 1 else 1);
          S = (if S \<noteq> [] \<and> (hd S = CHR ''+'' \<or> hd S = CHR ''-'') then tl S else S);
          Z = takeWhile is_digit S
      in if Z = [] then None
         else Some (sign * int (foldl (\<lambda>v c. 10 * v + digit_value c) 0 Z)))"

text \<open>
  \<^verbatim>\<open>
  async function doubleNumbers(
    stream: ReadableStream<Uint8Array>
  ): Promise<ReadableStream<Uint8Array>> {
    'use step';
    const decoder = new TextDecoder();
    const encoder = new TextEncoder();

    const transformStream = new TransformStream<Uint8Array, Uint8Array>({
      transform(chunk, controller) {
        const text = decoder.decode(chunk, { stream: true });
        const lines = text.split('\n');
        for (const line of lines) {
          if (line.trim()) {
            const num = parseInt(line, 10);
            controller.enqueue(encoder.encode(`${num * 2}\n`));
          }
        }
      },
    });

    return stream.pipeThrough(transformStream);
  }
  \<close>
  \<open>doubleNumbers_lines\<close> is the \<^verbatim>\<open>for\<close> loop over the lines and \<open>doubleNumbers_transform\<close>
  the \<^verbatim>\<open>transform\<close> callback. A text is truthy when it is not empty.
\<close>

fun doubleNumbers_lines :: "string list \<Rightarrow> readable_stream \<Rightarrow> readable_stream" where
  "doubleNumbers_lines [] controller = controller"
| "doubleNumbers_lines (line # lines) controller =
     doubleNumbers_lines lines
       (if trim line \<noteq> []
        then (let num = parseInt line
              in enqueue
                   (encode (string_of_number (map_option (\<lambda>n. n * 2) num) @ [newline]))
                   controller)
        else controller)"

definition doubleNumbers_transform :: "string \<Rightarrow> readable_stream \<Rightarrow> readable_stream" where
  "doubleNumbers_transform chunk controller =
     (let text = decode chunk;
          lines = split text
      in doubleNumbers_lines lines controller)"

text \<open>
  \<^verbatim>\<open>stream.pipeThrough(transformStream)\<close> reads the events of the source in order, hands
  every chunk to the \<^verbatim>\<open>transform\<close> callback together with the controller of the
  resulting stream, and closes the resulting stream when it reads the closure of the
  source. A source that has not been closed leaves the result open.
\<close>

fun pipeThrough_loop ::
  "(string \<Rightarrow> readable_stream \<Rightarrow> readable_stream) \<Rightarrow> stream_event list
     \<Rightarrow> readable_stream \<Rightarrow> readable_stream" where
  "pipeThrough_loop transform [] controller = controller"
| "pipeThrough_loop transform (Chunk chunk # events) controller =
     pipeThrough_loop transform events (transform chunk controller)"
| "pipeThrough_loop transform (Close # events) controller = close controller"

definition pipeThrough ::
  "readable_stream \<Rightarrow> (string \<Rightarrow> readable_stream \<Rightarrow> readable_stream) \<Rightarrow> readable_stream" where
  "pipeThrough stream transform = pipeThrough_loop transform stream []"

definition doubleNumbers ::
  "readable_stream \<Rightarrow> journal \<Rightarrow> readable_stream promise \<times> journal" where
  "doubleNumbers stream j =
     (Promise DoubleNumbers (pipeThrough stream doubleNumbers_transform), j @ [DoubleNumbers])"

text \<open>
  \<^verbatim>\<open>
  export async function streamWorkflow() {
    'use workflow';
    const stream = await genBenchStream();
    const doubled = await doubleNumbers(stream);
    return doubled;
  }
  \<close>
\<close>

definition streamWorkflow :: "readable_stream \<times> journal" where
  "streamWorkflow =
     (let (p, j) = genBenchStream [];
          stream = await p;
          (q, j) = doubleNumbers stream j;
          doubled = await q
      in (doubled, j))"

text \<open>
  The notions the description of \<^verbatim>\<open>doubleNumbers\<close> is stated with, defined without
  \<open>split\<close>, \<open>trim\<close> and \<open>parseInt\<close>. A text is blank when it holds white space only. \<open>join_lines\<close> puts
  segments together with one newline between neighbours, so the segments of a text are
  the newline-free texts that join to it. \<open>decimal_value\<close> is the number a text of
  decimal digits denotes, each digit weighted by its position.
\<close>

definition blank :: "string \<Rightarrow> bool" where
  "blank seg = list_all is_white_space seg"

fun join_lines :: "string list \<Rightarrow> string" where
  "join_lines [] = []"
| "join_lines [seg] = seg"
| "join_lines (seg # segs) = seg @ newline # join_lines segs"

fun decimal_value :: "string \<Rightarrow> nat" where
  "decimal_value [] = 0"
| "decimal_value (d # ds) = digit_value d * 10 ^ length ds + decimal_value ds"

subsection \<open>The instrumentation bootstrap\<close>

text \<open>
  \<^verbatim>\<open>
  import { registerOTel } from '@vercel/otel';

  registerOTel({ serviceName: 'example-nextjs-workflow' });

  if (process.env.NEXT_RUNTIME !== 'edge') {
    // kickstart the world
    import('workflow/api').then(async ({ getWorld }) => {
      await getWorld().start?.();
    });
  }
  \<close>
  The module acts on its surroundings only, so a run of it is the list of the boundary
  actions it performs, in order, together with the way the promise made by \<^verbatim>\<open>then\<close>
  settles. The surroundings are a parameter: the value of the environment variable
  (\<open>None\<close> when it is unset), what the dynamic import settles with, what \<^verbatim>\<open>getWorld()\<close>
  returns or throws, and whether the world has a \<^verbatim>\<open>start\<close> operation and how the
  promise of a call of it settles. \<^verbatim>\<open>registerOTel\<close> is taken to return.
\<close>

datatype js_error = Error string

datatype settled = Fulfilled | Rejected js_error

datatype boundary_action = RegisterOTel string | Import string | GetWorld | Start

record world =
  start :: "settled option"

record workflow_api =
  getWorld :: "js_error + world"

record host =
  NEXT_RUNTIME :: "string option"
  import_workflow_api :: "js_error + workflow_api"

record run =
  actions :: "boundary_action list"
  kickstarted :: "settled option"

text \<open>
  The callback given to \<^verbatim>\<open>then\<close>. The optional call \<^verbatim>\<open>start?.()\<close> calls the operation
  when the world has one and is skipped, with the value \<^verbatim>\<open>undefined\<close>, when it has none.
\<close>

definition kickstart :: "workflow_api \<Rightarrow> boundary_action list \<times> settled" where
  "kickstart api =
     (case getWorld api of
        Inl e \<Rightarrow> ([GetWorld], Rejected e)
      | Inr w \<Rightarrow>
          (case start w of
             None \<Rightarrow> ([GetWorld], Fulfilled)
           | Some s \<Rightarrow> ([GetWorld, Start], s)))"

definition instrumentation :: "host \<Rightarrow> run" where
  "instrumentation h =
     (let registered = [RegisterOTel ''example-nextjs-workflow'']
      in if NEXT_RUNTIME h \<noteq> Some ''edge''
         then (case import_workflow_api h of
                 Inl e \<Rightarrow>
                   \<lparr>actions = registered @ [Import ''workflow/api''],
                    kickstarted = Some (Rejected e)\<rparr>
               | Inr api \<Rightarrow>
                   \<lparr>actions = registered @ [Import ''workflow/api''] @ fst (kickstart api),
                    kickstarted = Some (snd (kickstart api))\<rparr>)
         else \<lparr>actions = registered, kickstarted = None\<rparr>)"

section \<open>Properties\<close>

text \<open>
  The equations of the loops rewrite a loop to itself, so they are taken out of the
  simplifier and unfolded one iteration at a time.
\<close>

declare tenSequentialSteps_loop.simps [simp del]
declare tenParallelSteps_loop.simps [simp del]
declare promiseAllStressTest_loop.simps [simp del]
declare promiseRace_spawn_loop.simps [simp del]
declare genBenchStream_start.simps [simp del]
declare string_of_nat.simps [simp del]
declare drain_loop.simps [code]

subsection \<open>Loops of the step workflows\<close>

lemma tenSequentialSteps_loop_last:
  "i < 10 \<Longrightarrow>
   tenSequentialSteps_loop i result j = (42, j @ replicate (nat (10 - i)) DoWork)"
proof (induction i result j rule: tenSequentialSteps_loop.induct)
  case (1 i result j)
  show ?case
  proof (cases "i + 1 < 10")
    case True
    have "nat (10 - i) = Suc (nat (9 - i))" using True by simp
    then show ?thesis
      using 1 True
      by (subst tenSequentialSteps_loop.simps)
         (simp add: doWork_def await_def replicate_app_Cons_same)
  next
    case False
    with 1 have "i = 9" by simp
    then show ?thesis
      by (simp add: tenSequentialSteps_loop.simps[of 9] tenSequentialSteps_loop.simps[of 10]
            doWork_def await_def)
  qed
qed

lemma tenParallelSteps_loop_eq:
  "i \<le> 10 \<Longrightarrow>
   tenParallelSteps_loop i ps j =
     (ps @ replicate (nat (10 - i)) (Promise DoWork 42), j @ replicate (nat (10 - i)) DoWork)"
proof (induction i ps j rule: tenParallelSteps_loop.induct)
  case (1 i ps j)
  show ?case
  proof (cases "i < 10")
    case True
    have "nat (10 - i) = Suc (nat (9 - i))" using True by simp
    then show ?thesis
      using 1 True
      by (subst tenParallelSteps_loop.simps) (simp add: doWork_def replicate_app_Cons_same)
  next
    case False
    with 1 show ?thesis by (subst tenParallelSteps_loop.simps) simp
  qed
qed

lemma promiseAllStressTest_loop_eq:
  "promiseAllStressTest_loop i count ps j =
     (ps @ map (\<lambda>k. Promise (StressTestStep k) k) [i..count - 1],
      j @ map StressTestStep [i..count - 1])"
proof (induction i count ps j rule: promiseAllStressTest_loop.induct)
  case (1 i count ps j)
  show ?case
  proof (cases "i < count")
    case True
    then have "[i..count - 1] = i # [i + 1..count - 1]"
      by (simp add: upto_rec1)
    then show ?thesis
      using 1 True by (subst promiseAllStressTest_loop.simps) (simp add: stressTestStep_def)
  next
    case False
    with 1 show ?thesis by (subst promiseAllStressTest_loop.simps) simp
  qed
qed

text \<open>
  Claim C7. \<open>noStepsWorkflow n\<close> starts no step (its journal is empty) and returns
  \<open>n * 2\<close>; \<open>oneStepWorkflow n\<close> starts the step \<open>doWork\<close> exactly once (its journal is
  that one call) and returns the result of the step, 42, plus \<open>n\<close>. This is stated for the
  inputs on which the integers of the model are the doubles of the code: \<open>n\<close> a safe
  integer, and for the sum \<open>42 + n\<close> a safe integer too.
\<close>

theorem zero_and_one_step_workflows:
  "(safe_integer n \<longrightarrow> noStepsWorkflow n = (n * 2, []))
   \<and> (safe_integer n \<and> safe_integer (42 + n) \<longrightarrow> oneStepWorkflow n = (42 + n, [DoWork]))"
  by (simp add: noStepsWorkflow_def oneStepWorkflow_def doWork_def await_def)

theorem zero_and_one_step_workflows_witness:
  "safe_integer 5 \<and> safe_integer (42 + 5)
   \<and> noStepsWorkflow 5 = (10, []) \<and> oneStepWorkflow 5 = (47, [DoWork])
   \<and> safe_integer 9007199254740949 \<and> safe_integer (42 + 9007199254740949)
   \<and> oneStepWorkflow 9007199254740949 = (9007199254740991, [DoWork])"
proof -
  have s: "safe_integer 5" "safe_integer (42 + 5)"
    "safe_integer 9007199254740949" "safe_integer (42 + 9007199254740949)"
    by (simp_all add: safe_integer_def)
  from zero_and_one_step_workflows [of 5] s(1,2)
  have "noStepsWorkflow 5 = (10, [])" "oneStepWorkflow 5 = (47, [DoWork])"
    by simp_all
  moreover from zero_and_one_step_workflows [of 9007199254740949] s(3,4)
  have "oneStepWorkflow 9007199254740949 = (9007199254740991, [DoWork])"
    by simp
  ultimately show ?thesis using s by simp
qed

text \<open>
  Claim C9. \<open>tenSequentialStepsWorkflow\<close> starts \<open>doWork\<close> ten times, one after the other,
  and returns 42, the result of the last step: the loop overwrites its variable, so
  whatever value the variable holds when the loop starts is lost, and the value returned
  is not the sum 420 of the ten results.
\<close>

theorem tenSequentialSteps_keeps_last_result:
  "tenSequentialStepsWorkflow = (42, replicate 10 DoWork)
   \<and> tenSequentialSteps_loop 0 result [] = (42, replicate 10 DoWork)
   \<and> fst tenSequentialStepsWorkflow \<noteq> foldl (\<lambda>sum val. sum + val) 0 (replicate 10 42)"
  by (simp add: tenSequentialStepsWorkflow_def tenSequentialSteps_loop_last numeral_eq_Suc)

text \<open>
  Claim C2. Steps started together and awaited with \<^verbatim>\<open>Promise.all\<close> give their results
  in the order in which they were started, one result for each step started:
  \<open>tenParallelStepsWorkflow\<close> starts ten steps and returns the sum 420 of their results;
  the array awaited by \<open>promiseAllStressTestWorkflow count\<close> holds the result of step \<open>i\<close>
  at position \<open>i\<close>, for the steps \<open>0\<close> to \<open>count - 1\<close> of the journal, and for every
  \<open>count \<ge> 0\<close> the workflow returns \<open>count\<close>.
\<close>

theorem fan_in_keeps_submission_order:
  "tenParallelStepsWorkflow = (420, replicate 10 DoWork)
   \<and> promiseAllStressTest_results count = ([0..count - 1], map StressTestStep [0..count - 1])
   \<and> (0 \<le> count \<longrightarrow>
        promiseAllStressTestWorkflow count = (count, map StressTestStep [0..count - 1]))"
proof -
  have a: "tenParallelStepsWorkflow = (420, replicate 10 DoWork)"
    by (simp add: tenParallelStepsWorkflow_def tenParallelSteps_loop_eq promise_all_def
          numeral_eq_Suc)
  have b: "promiseAllStressTest_results count
             = ([0..count - 1], map StressTestStep [0..count - 1])"
    by (simp add: promiseAllStressTest_results_def promiseAllStressTest_loop_eq
          promise_all_def o_def)
  have c: "0 \<le> count \<longrightarrow>
        promiseAllStressTestWorkflow count = (count, map StressTestStep [0..count - 1])"
    by (simp add: promiseAllStressTestWorkflow_def b)
  from a b c show ?thesis by simp
qed

theorem fan_in_keeps_submission_order_witness:
  "(0::int) \<le> 3
   \<and> promiseAllStressTest_results 3
       = ([0, 1, 2], [StressTestStep 0, StressTestStep 1, StressTestStep 2])
   \<and> promiseAllStressTestWorkflow 3
       = (3, [StressTestStep 0, StressTestStep 1, StressTestStep 2])"
  using fan_in_keeps_submission_order [of 3] by (simp add: upto_rec1)

subsection \<open>The tracking map\<close>

lemma map_set_fresh: "k \<notin> fst ` set m \<Longrightarrow> map_set k v m = m @ [(k, v)]"
  by (induction m) auto

lemma map_delete_keys: "map fst (map_delete k m) = remove1 k (map fst m)"
  by (induction m) auto

lemma map_delete_subset: "set (map_delete k m) \<subseteq> set m"
  by (induction m) (auto split: if_splits)

lemma map_delete_absent: "k \<notin> fst ` set m \<Longrightarrow> map_delete k m = m"
  by (induction m) auto

lemma map_delete_length:
  "k \<in> fst ` set m \<Longrightarrow> length (map_delete k m) = length m - 1"
proof (induction m)
  case Nil
  then show ?case by simp
next
  case (Cons e m)
  show ?case
  proof (cases "fst e = k")
    case True
    then show ?thesis by (cases e) simp
  next
    case False
    with Cons.prems have "k \<in> fst ` set m" by auto
    then have "length (map_delete k m) = length m - 1" "m \<noteq> []"
      using Cons.IH by auto
    then show ?thesis using False by (cases e) simp
  qed
qed

lemma keyed_map_delete: "keyed m \<Longrightarrow> keyed (map_delete k m)"
  unfolding keyed_def list_all_iff using map_delete_subset[of k m]
  by (auto simp: map_delete_keys)

lemma keyed_keys_after_delete:
  assumes "keyed m"
  shows "fst ` set (map_delete k m) = fst ` set m - {k}"
proof -
  from assms have d: "distinct (map fst m)" by (simp add: keyed_def)
  have "set (map fst (map_delete k m)) = set (map fst m) - {k}"
    using d by (simp add: map_delete_keys)
  then show ?thesis by simp
qed

lemma promise_race_keyed:
  assumes "keyed m" "m \<noteq> []"
  shows "\<exists>result. promise_race sched n (map_values m) = Some result \<and> result \<in> fst ` set m"
proof -
  let ?i = "sched n mod length m"
  have i: "?i < length m" using assms(2) by simp
  then have mem: "m ! ?i \<in> set m" by simp
  then have "outcome (snd (m ! ?i)) = fst (m ! ?i)"
    using assms(1) by (auto simp: keyed_def list_all_iff)
  moreover have "fst (m ! ?i) \<in> fst ` set m" using mem by (rule imageI)
  ultimately show ?thesis
    using assms(2) i by (simp add: promise_race_def map_values_def)
qed

lemma drain_loop_keyed:
  "keyed m \<Longrightarrow>
   \<exists>ds. drain_loop sched n (m, done) = Some ([], done @ ds)
        \<and> distinct ds \<and> set ds = fst ` set m"
proof (induction "length m" arbitrary: m n "done")
  case 0
  then show ?case
    by (subst drain_loop.simps) (simp add: map_size_def)
next
  case (Suc l)
  then have ne: "m \<noteq> []" by auto
  from promise_race_keyed[OF Suc.prems ne] obtain r where
    r: "promise_race sched n (map_values m) = Some r" "r \<in> fst ` set m" by blast
  have len: "l = length (map_delete r m)"
    using Suc.hyps(2) r(2) by (simp add: map_delete_length)
  have k: "keyed (map_delete r m)" using Suc.prems by (rule keyed_map_delete)
  from Suc.hyps(1)[OF len k, of "Suc n" "done @ [r]"] obtain ds where
    ds: "drain_loop sched (Suc n) (map_delete r m, done @ [r]) = Some ([], (done @ [r]) @ ds)"
        "distinct ds" "set ds = fst ` set (map_delete r m)" by blast
  have keys: "fst ` set (map_delete r m) = fst ` set m - {r}"
    using Suc.prems by (rule keyed_keys_after_delete)
  have "drain_loop sched n (m, done) = Some ([], done @ (r # ds))"
    using ne r(1) ds(1) by (subst drain_loop.simps) (simp add: map_size_def drain_step_def)
  moreover have "distinct (r # ds)" using ds(2,3) keys by simp
  moreover have "set (r # ds) = fst ` set m" using ds(3) keys r(2) by auto
  ultimately show ?case by blast
qed

lemma promiseRace_spawn_loop_eq:
  "\<forall>k \<in> fst ` set m. k < i \<Longrightarrow>
   promiseRace_spawn_loop i count m j =
     (m @ map (\<lambda>k. (k, Promise (StressTestStep k) k)) [i..count - 1],
      j @ map StressTestStep [i..count - 1])"
proof (induction i count m j rule: promiseRace_spawn_loop.induct)
  case (1 i count m j)
  show ?case
  proof (cases "i < count")
    case True
    then have u: "[i..count - 1] = i # [i + 1..count - 1]"
      by (simp add: upto_rec1)
    have fresh: "i \<notin> fst ` set m" using 1(2) by auto
    have "\<forall>k \<in> fst ` set (map_set i (fst (stressTestStep i j)) m). k < i + 1"
      using 1(2) fresh by (auto simp: map_set_fresh)
    from 1(1)[OF True this] show ?thesis
      using True u fresh
      by (subst promiseRace_spawn_loop.simps) (simp add: stressTestStep_def map_set_fresh)
  next
    case False
    then show ?thesis by (subst promiseRace_spawn_loop.simps) simp
  qed
qed

lemma promiseRace_spawned:
  "promiseRace_spawn_loop 0 count [] [] =
     (map (\<lambda>k. (k, Promise (StressTestStep k) k)) [0..count - 1],
      map StressTestStep [0..count - 1])"
  using promiseRace_spawn_loop_eq[of "[]" 0 count "[]"] by simp

lemma keyed_spawned: "keyed (map (\<lambda>k. (k, Promise (StressTestStep k) k)) [i..j])"
  by (simp add: keyed_def o_def list_all_iff)

lemma map_delete_keeps: "e \<in> set m \<Longrightarrow> fst e \<noteq> k \<Longrightarrow> e \<in> set (map_delete k m)"
  by (induction m) auto

lemma distinct_map_delete: "distinct (map fst m) \<Longrightarrow> distinct (map fst (map_delete k m))"
  by (simp add: map_delete_keys)

lemma distinct_keys_same_entry:
  "distinct (map fst m) \<Longrightarrow> x \<in> set m \<Longrightarrow> y \<in> set m \<Longrightarrow> fst x = fst y \<Longrightarrow> x = y"
  by (auto simp: distinct_map dest: inj_onD)

lemma keyed_iff:
  "keyed m \<longleftrightarrow> distinct (map fst m) \<and> (\<forall>e \<in> set m. outcome (snd e) = fst e)"
  by (auto simp: keyed_def list_all_iff)

lemma drain_step_not_keyed:
  assumes d: "distinct (map fst m)" and nk: "\<not> keyed m"
  shows "\<exists>r. drain_step sched n (m, done0) = Some (map_delete r m, done0 @ [r])
           \<and> distinct (map fst (map_delete r m)) \<and> \<not> keyed (map_delete r m)"
proof -
  from d nk obtain b where b: "b \<in> set m" "outcome (snd b) \<noteq> fst b"
    by (auto simp: keyed_iff)
  then have ne: "m \<noteq> []" by auto
  let ?i = "sched n mod length m"
  let ?e = "m ! ?i"
  let ?r = "outcome (snd ?e)"
  have e: "?e \<in> set m" using ne by simp
  have step: "drain_step sched n (m, done0) = Some (map_delete ?r m, done0 @ [?r])"
    using ne by (simp add: drain_step_def promise_race_def map_values_def)
  have "\<exists>x \<in> set (map_delete ?r m). outcome (snd x) \<noteq> fst x"
  proof (cases "fst b = ?r")
    case False
    with b(1) have "b \<in> set (map_delete ?r m)" by (rule map_delete_keeps)
    with b(2) show ?thesis by blast
  next
    case True
    have "fst ?e \<noteq> fst b"
    proof
      assume same: "fst ?e = fst b"
      from d e b(1) same have "?e = b" by (rule distinct_keys_same_entry)
      with True b(2) show False by simp
    qed
    then have "fst ?e \<noteq> ?r" using True by simp
    with e have "?e \<in> set (map_delete ?r m)" by (rule map_delete_keeps)
    moreover have "outcome (snd ?e) \<noteq> fst ?e" using \<open>fst ?e \<noteq> ?r\<close> by simp
    ultimately show ?thesis by blast
  qed
  then have "\<not> keyed (map_delete ?r m)" by (auto simp: keyed_iff)
  with step distinct_map_delete[OF d] show ?thesis by blast
qed


lemma drain_loop_not_keyed_aux:
  assumes "drain_loop sched n st = Some y"
  shows "\<not> (distinct (map fst (fst st)) \<and> \<not> keyed (fst st))"
proof (rule drain_loop.raw_induct
    [where P = "\<lambda>sched n st y. \<not> (distinct (map fst (fst st)) \<and> \<not> keyed (fst st))",
     OF _ assms])
  fix loop :: "scheduler \<Rightarrow> nat \<Rightarrow> (int, int promise) js_map \<times> int list
                 \<Rightarrow> ((int, int promise) js_map \<times> int list) option"
  fix sched n st y
  assume IH: "\<And>sched n st y. loop sched n st = Some y
                \<Longrightarrow> \<not> (distinct (map fst (fst st)) \<and> \<not> keyed (fst st))"
  assume body: "(if 0 < map_size (fst st)
        then case drain_step sched n st of None \<Rightarrow> None
             | Some st' \<Rightarrow> loop sched (Suc n) st'
        else Some st) = Some y"
  show "\<not> (distinct (map fst (fst st)) \<and> \<not> keyed (fst st))"
  proof
    assume bad: "distinct (map fst (fst st)) \<and> \<not> keyed (fst st)"
    then have "fst st \<noteq> []" by (auto simp: keyed_def)
    then have pos: "0 < map_size (fst st)" by (simp add: map_size_def)
    from bad drain_step_not_keyed[of "fst st" sched n "snd st"] obtain r where
      r: "drain_step sched n st = Some (map_delete r (fst st), snd st @ [r])"
         "distinct (map fst (map_delete r (fst st)))" "\<not> keyed (map_delete r (fst st))"
      by auto
    with body pos have "loop sched (Suc n) (map_delete r (fst st), snd st @ [r]) = Some y"
      by simp
    from IH[OF this] r(2,3) show False by simp
  qed
qed

lemma drain_loop_not_keyed:
  "distinct (map fst m) \<Longrightarrow> \<not> keyed m \<Longrightarrow> drain_loop sched n (m, done0) = None"
  using drain_loop_not_keyed_aux[of sched n "(m, done0)"]
  by (cases "drain_loop sched n (m, done0)") auto

text \<open>
  Claim C1. For every \<open>count \<ge> 0\<close> and every scheduler, that is whatever the order in
  which the steps complete, \<open>promiseRaceStressTestLargeWorkflow count\<close> returns: the drain
  loop leaves with the empty map, the list \<open>done\<close> it has built holds every started unit
  \<open>0\<close>, \<dots>, \<open>count - 1\<close> exactly once (each entry was deleted in the iteration that
  pushed it), and the length returned is \<open>count\<close>.
\<close>

theorem promiseRace_drains_every_task:
  assumes "0 \<le> count"
  shows "\<exists>done. drain_loop sched 0 (fst (promiseRace_spawn_loop 0 count [] []), [])
                  = Some ([], done)
              \<and> distinct done \<and> set done = {0..<count}
              \<and> promiseRaceStressTestLargeWorkflow sched count
                  = Some (count, map StressTestStep [0..count - 1])"
proof -
  let ?m = "map (\<lambda>k. (k, Promise (StressTestStep k) k)) [0..count - 1]"
  have "keyed ?m" by (rule keyed_spawned)
  from drain_loop_keyed[OF this, where sched = sched and n = 0 and ?done = "[]"] obtain ds where
    ds: "drain_loop sched 0 (?m, []) = Some ([], ds)" "distinct ds" "set ds = fst ` set ?m"
    by auto
  have keys: "fst ` set ?m = {0..<count}" by (auto simp: image_iff)
  have "length ds = card (set ds)" using ds(2) by (simp add: distinct_card)
  also have "\<dots> = nat count" using ds(3) keys by simp
  finally have len: "int (length ds) = count" using assms by simp
  show ?thesis
    using ds keys len by (simp add: promiseRaceStressTestLargeWorkflow_def promiseRace_spawned)
qed

theorem promiseRace_drains_every_task_witness:
  "(0::int) \<le> 3
   \<and> promiseRaceStressTestLargeWorkflow (\<lambda>n. n + 1) 3
       = Some (3, [StressTestStep 0, StressTestStep 1, StressTestStep 2])"
proof -
  have h: "(0::int) \<le> 3" by simp
  have u: "[0..(3::int) - 1] = [0, 1, 2]" by (simp add: upto_rec1)
  from promiseRace_drains_every_task [OF h, where sched = "\<lambda>n. n + 1"]
  have "promiseRaceStressTestLargeWorkflow (\<lambda>n. n + 1) 3
          = Some (3, map StressTestStep [0..3 - 1])"
    by blast
  then show ?thesis unfolding u by simp
qed

text \<open>
  Claim C8. The drain loop ends because, and only because, \<open>stressTestStep i\<close> fulfils with
  \<open>i\<close>, the key its promise is stored under. The first loop builds the map with the keys
  \<open>0\<close>, \<dots>, \<open>count - 1\<close>, in order, each holding the promise of the step started with
  that key, so the map is keyed. On a keyed map that is not empty, whatever the
  scheduler, the result raced out is a key of the map, the body of the loop deletes that
  entry and nothing else, the size goes down by exactly one and the map stays keyed; so
  the loop leaves with the empty map. On every map that is not keyed, that is as soon as
  one promise fulfils with anything but its key, the loop never ends, whatever the
  scheduler.
\<close>

theorem drain_shrinks_because_results_are_keys:
  "promiseRace_spawn_loop 0 count [] [] =
     (map (\<lambda>k. (k, Promise (StressTestStep k) k)) [0..count - 1],
      map StressTestStep [0..count - 1])
   \<and> keyed (fst (promiseRace_spawn_loop 0 count [] []))
   \<and> (keyed m \<and> 0 < map_size m \<longrightarrow>
        (\<exists>result. promise_race sched n (map_values m) = Some result
           \<and> result \<in> fst ` set m
           \<and> drain_step sched n (m, done0) = Some (map_delete result m, done0 @ [result])
           \<and> map_size (map_delete result m) = map_size m - 1
           \<and> keyed (map_delete result m)))
   \<and> (keyed m \<longrightarrow> (\<exists>done'. drain_loop sched n (m, done0) = Some ([], done')))
   \<and> (distinct (map fst m) \<and> \<not> keyed m \<longrightarrow> drain_loop sched n (m, done0) = None)"
proof -
  have s: "promiseRace_spawn_loop 0 count [] [] =
     (map (\<lambda>k. (k, Promise (StressTestStep k) k)) [0..count - 1],
      map StressTestStep [0..count - 1])"
    by (rule promiseRace_spawned)
  have a: "keyed (fst (promiseRace_spawn_loop 0 count [] []))"
    by (simp add: promiseRace_spawned keyed_spawned)
  have b: "\<exists>result. promise_race sched n (map_values m) = Some result
           \<and> result \<in> fst ` set m
           \<and> drain_step sched n (m, done0) = Some (map_delete result m, done0 @ [result])
           \<and> map_size (map_delete result m) = map_size m - 1
           \<and> keyed (map_delete result m)"
    if k: "keyed m" and pos: "0 < map_size m"
  proof -
    from pos have ne: "m \<noteq> []" by (auto simp: map_size_def)
    from promise_race_keyed[OF k ne] obtain r where
      r: "promise_race sched n (map_values m) = Some r" "r \<in> fst ` set m" by blast
    have "drain_step sched n (m, done0) = Some (map_delete r m, done0 @ [r])"
      using r(1) by (simp add: drain_step_def)
    moreover have "map_size (map_delete r m) = map_size m - 1"
      using r(2) ne by (simp add: map_size_def map_delete_length Suc_leI)
    moreover have "keyed (map_delete r m)" using k by (rule keyed_map_delete)
    ultimately show ?thesis using r by blast
  qed
  have c: "\<exists>done'. drain_loop sched n (m, done0) = Some ([], done')" if "keyed m"
    using drain_loop_keyed[OF that, of sched n done0] by blast
  have d: "drain_loop sched n (m, done0) = None" if "distinct (map fst m)" "\<not> keyed m"
    using that by (rule drain_loop_not_keyed)
  from s a b c d show ?thesis by blast
qed

theorem drain_shrinks_because_results_are_keys_witness:
  "keyed [(0, Promise (StressTestStep 0) 0), (1, Promise (StressTestStep 1) 1)]
   \<and> 0 < map_size [(0::int, Promise (StressTestStep 0) (0::int)),
                    (1, Promise (StressTestStep 1) 1)]
   \<and> (\<exists>result.
        drain_step (\<lambda>n. 1) 0
          ([(0, Promise (StressTestStep 0) 0), (1, Promise (StressTestStep 1) 1)], [])
          = Some (map_delete result
                    [(0, Promise (StressTestStep 0) 0), (1, Promise (StressTestStep 1) 1)],
                  [result])
        \<and> map_size (map_delete result
                    [(0::int, Promise (StressTestStep 0) (0::int)),
                     (1, Promise (StressTestStep 1) 1)]) = 1)
   \<and> distinct (map fst [(0::int, Promise (StressTestStep 0) (1::int)),
                         (1, Promise (StressTestStep 1) 2), (2, Promise (StressTestStep 2) 3)])
   \<and> \<not> keyed [(0, Promise (StressTestStep 0) 1), (1, Promise (StressTestStep 1) 2),
               (2, Promise (StressTestStep 2) 3)]
   \<and> drain_loop (\<lambda>n. n) 0
        ([(0, Promise (StressTestStep 0) 1), (1, Promise (StressTestStep 1) 2),
          (2, Promise (StressTestStep 2) 3)], []) = None
   \<and> distinct (map fst [(0::int, Promise (StressTestStep 0) (0::int)),
                         (1, Promise (StressTestStep 1) 0), (2, Promise (StressTestStep 2) 0)])
   \<and> \<not> keyed [(0, Promise (StressTestStep 0) 0), (1, Promise (StressTestStep 1) 0),
               (2, Promise (StressTestStep 2) 0)]
   \<and> drain_loop (\<lambda>n. n) 0
        ([(0, Promise (StressTestStep 0) 0), (1, Promise (StressTestStep 1) 0),
          (2, Promise (StressTestStep 2) 0)], []) = None"
proof -
  let ?m = "[(0::int, Promise (StressTestStep 0) (0::int)), (1, Promise (StressTestStep 1) 1)]"
  let ?next = "[(0::int, Promise (StressTestStep 0) (1::int)),
                (1, Promise (StressTestStep 1) 2), (2, Promise (StressTestStep 2) 3)]"
  let ?zero = "[(0::int, Promise (StressTestStep 0) (0::int)),
                (1, Promise (StressTestStep 1) 0), (2, Promise (StressTestStep 2) 0)]"
  have k: "keyed ?m"
    by (simp add: keyed_def)
  have s: "0 < map_size ?m" "map_size ?m - 1 = 1"
    by (simp_all add: map_size_def)
  have u: "distinct (map fst ?next) \<and> \<not> keyed ?next"
    by (simp add: keyed_def)
  have v: "distinct (map fst ?zero) \<and> \<not> keyed ?zero"
    by (simp add: keyed_def)
  note shrink = drain_shrinks_because_results_are_keys
        [where m = ?m and sched = "\<lambda>n. 1" and n = 0 and ?done0.0 = "[]",
         THEN conjunct2, THEN conjunct2, THEN conjunct1, THEN mp, OF conjI [OF k s(1)]]
  note stuck_next = drain_shrinks_because_results_are_keys
        [where m = ?next and sched = "\<lambda>n. n" and n = 0 and ?done0.0 = "[]",
         THEN conjunct2, THEN conjunct2, THEN conjunct2, THEN conjunct2, THEN mp, OF u]
  note stuck_zero = drain_shrinks_because_results_are_keys
        [where m = ?zero and sched = "\<lambda>n. n" and n = 0 and ?done0.0 = "[]",
         THEN conjunct2, THEN conjunct2, THEN conjunct2, THEN conjunct2, THEN mp, OF v]
  from shrink obtain result where
    "drain_step (\<lambda>n. 1) 0 (?m, []) = Some (map_delete result ?m, [] @ [result])"
    "map_size (map_delete result ?m) = map_size ?m - 1"
    by (elim exE conjE) (rule that)
  then have "\<exists>result. drain_step (\<lambda>n. 1) 0 (?m, []) = Some (map_delete result ?m, [result])
          \<and> map_size (map_delete result ?m) = 1"
    unfolding s(2) append_Nil by (intro exI conjI)
  with k s(1) u v stuck_next stuck_zero show ?thesis
    by (intro conjI) (elim conjE, assumption)+
qed

subsection \<open>Decimal texts\<close>

lemma digit_char_cases:
  "d < 10 \<Longrightarrow> d = 0 \<or> d = 1 \<or> d = 2 \<or> d = 3 \<or> d = 4 \<or> d = 5 \<or> d = 6 \<or> d = 7 \<or> d = 8 \<or> d = (9::nat)"
  by arith

lemma digit_char_props:
  assumes "d < 10"
  shows "is_digit (digit_char d)" "digit_value (digit_char d) = d"
    "\<not> is_white_space (digit_char d)" "digit_char d \<noteq> newline"
    "digit_char d \<noteq> CHR ''-''" "digit_char d \<noteq> CHR ''+''"
  using digit_char_cases[OF assms]
  by (auto simp: digit_char_def is_digit_def digit_value_def is_white_space_def newline_def)

lemma string_of_nat_props:
  "string_of_nat n \<noteq> [] \<and> list_all is_digit (string_of_nat n)
   \<and> foldl (\<lambda>v c. 10 * v + digit_value c) 0 (string_of_nat n) = n"
proof (induction n rule: string_of_nat.induct)
  case (1 n)
  show ?case
  proof (cases "n < 10")
    case True
    then show ?thesis
      by (subst (1 2 3) string_of_nat.simps) (simp add: digit_char_props)
  next
    case False
    have m: "n mod 10 < 10" by simp
    from 1[OF False] show ?thesis
      using False
      by (subst (1 2 3) string_of_nat.simps) (simp add: digit_char_props[OF m])
  qed
qed

lemma string_of_nat_hd:
  "is_digit (hd (string_of_nat n))"
  using string_of_nat_props[of n] by (cases "string_of_nat n") simp_all

lemma is_digit_facts:
  "is_digit c \<Longrightarrow> \<not> is_white_space c \<and> c \<noteq> newline \<and> c \<noteq> CHR ''-'' \<and> c \<noteq> CHR ''+''"
  by (auto simp: is_digit_def is_white_space_def newline_def)

lemma parseInt_digits:
  assumes "Z \<noteq> []" "list_all is_digit Z"
  shows "parseInt Z = Some (int (foldl (\<lambda>v c. 10 * v + digit_value c) 0 Z))"
    and "parseInt (CHR ''-'' # Z) = Some (- int (foldl (\<lambda>v c. 10 * v + digit_value c) 0 Z))"
proof -
  have c: "is_digit (hd Z)" using assms by (cases Z) simp_all
  note f = is_digit_facts[OF c]
  have tw: "takeWhile is_digit Z = Z" using assms(2) by (simp add: list_all_iff)
  have dwZ: "dropWhile is_white_space Z = Z" using f assms(1) by (cases Z) simp_all
  have dwM: "dropWhile is_white_space (CHR ''-'' # Z) = CHR ''-'' # Z"
    by (simp add: is_white_space_def)
  show "parseInt Z = Some (int (foldl (\<lambda>v c. 10 * v + digit_value c) 0 Z))"
    unfolding parseInt_def dwZ Let_def using f assms(1) by (simp add: tw)
  show "parseInt (CHR ''-'' # Z) = Some (- int (foldl (\<lambda>v c. 10 * v + digit_value c) 0 Z))"
    unfolding parseInt_def dwM Let_def using assms(1) by (simp add: tw)
qed

lemma parseInt_string_of_number: "parseInt (string_of_number (Some n)) = Some n"
  using string_of_nat_props parseInt_digits
  by (simp add: string_of_number_def)

lemma string_of_number_chars:
  "string_of_number (Some n) \<noteq> [] \<and> newline \<notin> set (string_of_number (Some n))
   \<and> \<not> is_white_space (hd (string_of_number (Some n)))"
proof -
  have d: "list_all is_digit (string_of_nat k)" "string_of_nat k \<noteq> []" for k
    using string_of_nat_props[of k] by simp_all
  have nl: "newline \<notin> set (string_of_nat k)" for k
    using d(1)[of k] is_digit_facts by (auto simp: list_all_iff)
  have hdws: "\<not> is_white_space (hd (string_of_nat k))" for k
    using string_of_nat_hd[of k] is_digit_facts by blast
  show ?thesis
    using d nl hdws by (simp add: string_of_number_def newline_def is_white_space_def)
qed

subsection \<open>Segments and blank texts\<close>

lemma split_from_no_newline: "newline \<notin> set s \<Longrightarrow> split_from cur s = [cur @ s]"
  by (induction s arbitrary: cur) auto

lemma split_from_newline:
  "newline \<notin> set s \<Longrightarrow> split_from cur (s @ newline # t) = (cur @ s) # split_from [] t"
  by (induction s arbitrary: cur) auto

lemma split_line: "newline \<notin> set s \<Longrightarrow> split (s @ [newline]) = [s, []]"
  using split_from_newline[of s "[]" "[]"] by (simp add: split_def)

lemma trim_empty_iff: "trim s = [] \<longleftrightarrow> blank s"
proof
  assume "trim s = []"
  then have a: "\<forall>c \<in> set (dropWhile is_white_space s). is_white_space c"
    by (simp add: trim_def)
  have "dropWhile is_white_space s = []"
  proof (rule ccontr)
    assume ne: "dropWhile is_white_space s \<noteq> []"
    then have "\<not> is_white_space (hd (dropWhile is_white_space s))" by (rule hd_dropWhile)
    moreover have "hd (dropWhile is_white_space s) \<in> set (dropWhile is_white_space s)"
      using ne by (rule hd_in_set)
    ultimately show False using a by blast
  qed
  then show "blank s" by (simp add: blank_def list_all_iff)
next
  assume "blank s"
  then show "trim s = []"
    by (auto simp: trim_def blank_def list_all_iff dest: set_dropWhileD)
qed

lemma nonblank_hd: "s \<noteq> [] \<Longrightarrow> \<not> is_white_space (hd s) \<Longrightarrow> \<not> blank s"
  by (cases s) (simp_all add: blank_def)

subsection \<open>Positional value and canonical decimal texts\<close>

lemma horner_decimal_value:
  "foldl (\<lambda>v c. 10 * v + digit_value c) v ds = v * 10 ^ length ds + decimal_value ds"
  by (induction ds arbitrary: v) (simp_all add: algebra_simps)

lemma is_digit_value_le: "is_digit c \<Longrightarrow> digit_value c \<le> 9"
  by (auto simp: is_digit_def digit_value_def)

lemma decimal_value_bound: "list_all is_digit ds \<Longrightarrow> decimal_value ds < 10 ^ length ds"
proof (induction ds)
  case Nil
  then show ?case by simp
next
  case (Cons d ds)
  then have a: "digit_value d \<le> 9" and b: "decimal_value ds < 10 ^ length ds"
    by (simp_all add: is_digit_value_le)
  from a have c: "digit_value d * 10 ^ length ds \<le> 9 * 10 ^ length ds"
    by (rule mult_le_mono1)
  have "decimal_value (d # ds) = digit_value d * 10 ^ length ds + decimal_value ds"
    by simp
  also have "\<dots> < 9 * 10 ^ length ds + 10 ^ length ds"
    using b c by (rule add_le_less_mono[rotated])
  also have "\<dots> = 10 ^ length (d # ds)"
    by simp
  finally show ?case .
qed

lemma decimal_value_string_of_nat: "decimal_value (string_of_nat n) = n"
  using string_of_nat_props[of n] by (simp add: horner_decimal_value)

lemma string_of_nat_zero: "string_of_nat 0 = ''0''"
  by (subst string_of_nat.simps) (simp add: digit_char_def)

lemma string_of_nat_no_leading_zero: "0 < n \<Longrightarrow> hd (string_of_nat n) \<noteq> CHR ''0''"
proof (induction n rule: string_of_nat.induct)
  case (1 n)
  show ?case
  proof (cases "n < 10")
    case True
    with 1(2) digit_char_cases[of n] show ?thesis
      by (subst string_of_nat.simps) (auto simp: digit_char_def)
  next
    case False
    then have "0 < n div 10" by simp
    from 1(1)[OF False this] show ?thesis
      using False string_of_nat_props[of "n div 10"]
      by (subst string_of_nat.simps) simp
  qed
qed

lemma string_of_number_canonical:
  "\<exists>ds. string_of_number (Some x) = (if x < 0 then ''-'' else []) @ ds
        \<and> ds \<noteq> [] \<and> list_all is_digit ds \<and> int (decimal_value ds) = \<bar>x\<bar>
        \<and> (hd ds = CHR ''0'' \<longrightarrow> ds = ''0'')"
proof -
  let ?ds = "string_of_nat (nat \<bar>x\<bar>)"
  have "string_of_number (Some x) = (if x < 0 then ''-'' else []) @ ?ds"
    by (simp add: string_of_number_def abs_if)
  moreover have "?ds \<noteq> []" "list_all is_digit ?ds"
    using string_of_nat_props[of "nat \<bar>x\<bar>"] by simp_all
  moreover have "int (decimal_value ?ds) = \<bar>x\<bar>"
    by (simp add: decimal_value_string_of_nat)
  moreover have "hd ?ds = CHR ''0'' \<longrightarrow> ?ds = ''0''"
    using string_of_nat_no_leading_zero[of "nat \<bar>x\<bar>"] string_of_nat_zero
    by (cases "nat \<bar>x\<bar> = 0") auto
  ultimately show ?thesis by blast
qed

subsection \<open>Segments\<close>

lemma split_join_lines:
  "segs \<noteq> [] \<Longrightarrow> list_all (\<lambda>s. newline \<notin> set s) segs \<Longrightarrow> split (join_lines segs) = segs"
proof (induction segs rule: join_lines.induct)
  case 1
  then show ?case by simp
next
  case (2 seg)
  then show ?case by (simp add: split_def split_from_no_newline)
next
  case (3 seg s2 segs)
  then have "split (join_lines (s2 # segs)) = s2 # segs" by simp
  moreover have "newline \<notin> set seg" using 3(3) by simp
  ultimately show ?case
    using split_from_newline[of seg "[]" "join_lines (s2 # segs)"] by (simp add: split_def)
qed

lemma split_from_chars:
  "seg \<in> set (split_from cur s) \<Longrightarrow> set seg \<subseteq> set cur \<union> set s"
proof (induction s arbitrary: cur)
  case Nil
  then show ?case by simp
next
  case (Cons c s)
  show ?case
  proof (cases "c = newline")
    case True
    with Cons.prems have "seg = cur \<or> seg \<in> set (split_from [] s)" by simp
    then show ?thesis using Cons.IH[of "[]"] by auto
  next
    case False
    with Cons.prems have "seg \<in> set (split_from (cur @ [c]) s)" by simp
    then show ?thesis using Cons.IH[of "cur @ [c]"] by auto
  qed
qed

lemma blank_split: "blank s \<Longrightarrow> list_all blank (split s)"
  using split_from_chars[of _ "[]" s]
  by (auto simp: blank_def list_all_iff split_def)

subsection \<open>The transformer, segment by segment\<close>

lemma doubleNumbers_lines_single:
  "doubleNumbers_lines [line] [] =
     (if blank line then []
      else [Chunk (encode (string_of_number (map_option (\<lambda>n. n * 2) (parseInt line)) @ [newline]))])"
  by (simp add: trim_empty_iff enqueue_def)

lemma doubleNumbers_lines_concat:
  "doubleNumbers_lines lines controller =
     controller @ concat (map (\<lambda>line. doubleNumbers_lines [line] []) lines)"
proof (induction lines arbitrary: controller)
  case Nil
  then show ?case by simp
next
  case (Cons line lines)
  show ?case
    by (subst doubleNumbers_lines.simps, subst Cons.IH) (simp add: enqueue_def)
qed

lemma doubleNumbers_transform_segment:
  "newline \<notin> set seg \<Longrightarrow> doubleNumbers_transform seg [] = doubleNumbers_lines [seg] []"
  by (simp add: doubleNumbers_transform_def decode_def split_def split_from_no_newline)

lemma doubleNumbers_transform_segments:
  assumes "segs \<noteq> []" "list_all (\<lambda>s. newline \<notin> set s) segs"
  shows "doubleNumbers_transform (join_lines segs) controller =
     controller @ concat (map (\<lambda>seg. doubleNumbers_transform seg [])
                            (filter (\<lambda>seg. \<not> blank seg) segs))"
proof -
  have one: "doubleNumbers_lines [seg] [] = doubleNumbers_transform seg []" if "seg \<in> set segs" for seg
    using that assms(2) by (simp add: doubleNumbers_transform_segment list_all_iff)
  have drop: "concat (map (\<lambda>seg. doubleNumbers_lines [seg] []) xs)
      = concat (map (\<lambda>seg. doubleNumbers_lines [seg] []) (filter (\<lambda>seg. \<not> blank seg) xs))" for xs
    by (induction xs) (simp_all add: doubleNumbers_lines_single del: doubleNumbers_lines.simps)
  have "doubleNumbers_transform (join_lines segs) controller
      = controller @ concat (map (\<lambda>seg. doubleNumbers_lines [seg] []) segs)"
    using split_join_lines[OF assms]
    by (simp add: doubleNumbers_transform_def decode_def doubleNumbers_lines_concat[of segs])
  also have "\<dots> = controller @ concat (map (\<lambda>seg. doubleNumbers_lines [seg] [])
                            (filter (\<lambda>seg. \<not> blank seg) segs))"
    using drop[of segs] by simp
  also have "map (\<lambda>seg. doubleNumbers_lines [seg] []) (filter (\<lambda>seg. \<not> blank seg) segs)
      = map (\<lambda>seg. doubleNumbers_transform seg []) (filter (\<lambda>seg. \<not> blank seg) segs)"
    using one by (intro map_cong) auto
  finally show ?thesis .
qed

lemma doubleNumbers_transform_blank:
  "blank chunk \<Longrightarrow> doubleNumbers_transform chunk controller = controller"
proof -
  assume "blank chunk"
  then have "list_all blank (split chunk)" by (rule blank_split)
  then have "concat (map (\<lambda>line. doubleNumbers_lines [line] []) (split chunk)) = []"
    by (auto simp: list_all_iff doubleNumbers_lines_single simp del: doubleNumbers_lines.simps)
  then show ?thesis
    by (simp add: doubleNumbers_transform_def decode_def doubleNumbers_lines_concat[of "split chunk"])
qed

lemma doubleNumbers_transform_one_chunk:
  "newline \<notin> set seg \<Longrightarrow> \<not> blank seg \<Longrightarrow> length (doubleNumbers_transform seg []) = 1"
  by (simp add: doubleNumbers_transform_segment doubleNumbers_lines_single
        del: doubleNumbers_lines.simps)

subsection \<open>What parseInt reads\<close>

lemma dropWhile_white_space:
  assumes "list_all is_white_space ws" "xs \<noteq> []" "\<not> is_white_space (hd xs)"
  shows "dropWhile is_white_space (ws @ xs) = xs"
proof -
  have "dropWhile is_white_space (ws @ xs) = dropWhile is_white_space xs"
    using assms(1) by (intro dropWhile_append2) (simp add: list_all_iff)
  also have "\<dots> = xs" using assms(2,3) by (cases xs) simp_all
  finally show ?thesis .
qed

lemma takeWhile_digits:
  assumes "list_all is_digit ds" "rest = [] \<or> \<not> is_digit (hd rest)"
  shows "takeWhile is_digit (ds @ rest) = ds"
proof -
  have "takeWhile is_digit rest = []" using assms(2) by (cases rest) auto
  moreover have "takeWhile is_digit (ds @ rest) = ds @ takeWhile is_digit rest"
    using assms(1) by (intro takeWhile_append2) (simp add: list_all_iff)
  ultimately show ?thesis by simp
qed

lemma parseInt_decimal:
  assumes ws: "list_all is_white_space ws"
    and sig: "sig \<in> {[], ''+'', ''-''}"
    and ds: "ds \<noteq> []" "list_all is_digit ds"
    and rest: "rest = [] \<or> \<not> is_digit (hd rest)"
  shows "parseInt (ws @ sig @ ds @ rest)
           = Some (if sig = ''-'' then - int (decimal_value ds) else int (decimal_value ds))"
proof -
  have d: "is_digit (hd ds)" using ds by (cases ds) simp_all
  note f = is_digit_facts[OF d]
  have tw: "takeWhile is_digit (ds @ rest) = ds" using ds(2) rest by (rule takeWhile_digits)
  have hd_ds: "hd (ds @ rest) = hd ds" using ds(1) by simp
  have ne: "ds @ rest \<noteq> []" using ds(1) by simp
  consider "sig = []" | "sig = ''+''" | "sig = ''-''" using sig by auto
  then show ?thesis
  proof cases
    case 1
    have "dropWhile is_white_space (ws @ ds @ rest) = ds @ rest"
      using ws ne f by (intro dropWhile_white_space) (simp_all add: hd_ds)
    then show ?thesis
      unfolding parseInt_def Let_def using 1 f ds(1)
      by (simp add: tw hd_ds horner_decimal_value)
  next
    case 2
    have "dropWhile is_white_space (ws @ CHR ''+'' # ds @ rest) = CHR ''+'' # ds @ rest"
      using ws by (intro dropWhile_white_space) (simp_all add: is_white_space_def)
    then show ?thesis
      unfolding parseInt_def Let_def using 2 ds(1)
      by (simp add: tw horner_decimal_value)
  next
    case 3
    have "dropWhile is_white_space (ws @ CHR ''-'' # ds @ rest) = CHR ''-'' # ds @ rest"
      using ws by (intro dropWhile_white_space) (simp_all add: is_white_space_def)
    then show ?thesis
      unfolding parseInt_def Let_def using 3 ds(1)
      by (simp add: tw horner_decimal_value)
  qed
qed

lemma parseInt_not_a_number:
  assumes ws: "list_all is_white_space ws" and c: "\<not> is_white_space c"
    and shape: "(\<not> is_digit c \<and> c \<noteq> CHR ''+'' \<and> c \<noteq> CHR ''-'')
                \<or> ((c = CHR ''+'' \<or> c = CHR ''-'') \<and> (rest = [] \<or> \<not> is_digit (hd rest)))"
  shows "parseInt (ws @ c # rest) = None"
proof -
  have dw: "dropWhile is_white_space (ws @ c # rest) = c # rest"
    using ws c by (intro dropWhile_white_space) simp_all
  have r: "rest = [] \<or> \<not> is_digit (hd rest) \<Longrightarrow> takeWhile is_digit rest = []"
    by (cases rest) auto
  from shape show ?thesis
  proof
    assume "\<not> is_digit c \<and> c \<noteq> CHR ''+'' \<and> c \<noteq> CHR ''-''"
    then show ?thesis unfolding parseInt_def Let_def dw by simp
  next
    assume a: "(c = CHR ''+'' \<or> c = CHR ''-'') \<and> (rest = [] \<or> \<not> is_digit (hd rest))"
    then have "takeWhile is_digit rest = []" using r by blast
    with a show ?thesis unfolding parseInt_def Let_def dw by auto
  qed
qed

lemma parseInt_bound:
  assumes "parseInt seg = Some v"
  shows "\<bar>v\<bar> < 10 ^ length seg"
proof -
  define S where "S = dropWhile is_white_space seg"
  define S' where "S' = (if S \<noteq> [] \<and> (hd S = CHR ''+'' \<or> hd S = CHR ''-'') then tl S else S)"
  define Z where "Z = takeWhile is_digit S'"
  have len: "length Z \<le> length seg"
  proof -
    have "length Z \<le> length S'" unfolding Z_def by (rule length_takeWhile_le)
    also have "\<dots> \<le> length S" unfolding S'_def by simp
    also have "\<dots> \<le> length seg" unfolding S_def by (rule length_dropWhile_le)
    finally show ?thesis .
  qed
  have dig: "list_all is_digit Z"
    unfolding Z_def by (auto simp: list_all_iff dest: set_takeWhileD)
  from assms have "\<bar>v\<bar> = int (decimal_value Z)"
    unfolding parseInt_def Let_def S_def[symmetric] S'_def[symmetric] Z_def[symmetric]
    by (auto simp: horner_decimal_value split: if_splits)
  also have "\<dots> < 10 ^ length Z"
    using decimal_value_bound[OF dig] by (metis of_nat_less_iff of_nat_numeral of_nat_power)
  also have "\<dots> \<le> 10 ^ length seg"
    using len by (simp add: power_increasing)
  finally show ?thesis .
qed

lemma parseInt_safe:
  assumes "length seg \<le> 15" "parseInt seg = Some v"
  shows "safe_integer v \<and> safe_integer (2 * v)"
proof -
  have "\<bar>v\<bar> < 10 ^ length seg" using assms(2) by (rule parseInt_bound)
  also have "\<dots> \<le> (10::int) ^ 15" using assms(1) by (intro power_increasing) simp_all
  finally have "\<bar>v\<bar> < 1000000000000000" by simp
  then have "- 1000000000000000 < v" "v < 1000000000000000" by arith+
  then show ?thesis by (simp add: safe_integer_def)
qed

lemma not_blank_with: "c \<in> set seg \<Longrightarrow> \<not> is_white_space c \<Longrightarrow> \<not> blank seg"
  by (auto simp: blank_def list_all_iff)


subsection \<open>The pipe\<close>

lemma pipeThrough_loop_closed:
  "pipeThrough_loop t (map Chunk cs @ [Close]) controller
     = close (foldl (\<lambda>controller c. t c controller) controller cs)"
  by (induction cs arbitrary: controller) simp_all

lemma doubleNumbers_transform_append:
  "doubleNumbers_transform c controller = controller @ doubleNumbers_transform c []"
proof -
  have 1: "doubleNumbers_lines ls controller
      = controller @ concat (map (\<lambda>line. doubleNumbers_lines [line] []) ls)" for ls
    by (rule doubleNumbers_lines_concat)
  have 2: "doubleNumbers_lines ls []
      = concat (map (\<lambda>line. doubleNumbers_lines [line] []) ls)" for ls
    using doubleNumbers_lines_concat[of ls "[]"] by (simp del: doubleNumbers_lines.simps)
  show ?thesis
    unfolding doubleNumbers_transform_def Let_def
    by (simp only: 1[of "split (decode c)"] 2[of "split (decode c)"])
qed

lemma foldl_transform_concat:
  "foldl (\<lambda>controller c. doubleNumbers_transform c controller) controller cs =
     controller @ concat (map (\<lambda>c. doubleNumbers_transform c []) cs)"
proof (induction cs arbitrary: controller)
  case Nil
  then show ?case by simp
next
  case (Cons c cs)
  show ?case
    using Cons[of "doubleNumbers_transform c controller"]
    by (simp add: doubleNumbers_transform_append[of c controller])
qed

lemma doubleNumbers_closed_stream:
  "await (fst (doubleNumbers (map Chunk chunks @ [Close]) j)) =
     concat (map (\<lambda>chunk. doubleNumbers_transform chunk []) chunks) @ [Close]"
  unfolding doubleNumbers_def await_def pipeThrough_def pipeThrough_loop_closed
    foldl_transform_concat
  by (simp add: close_def)

text \<open>
  Claim C10. The \<^verbatim>\<open>transform\<close> callback of \<open>doubleNumbers\<close> adds to the output exactly
  one chunk for each segment of the input chunk that is not blank, in order, and nothing
  for a blank segment; a chunk that is blank as a whole, and so the empty segment after
  a final newline, adds nothing. Here the segments of a chunk are the newline-free texts
  that join to it with one newline between neighbours, and the chunk added for a
  segment is what the callback gives on that segment alone. For a segment made of white
  space, an optional sign and decimal digits, followed by nothing or by a character that
  is not a digit, that chunk holds the text of twice the number the digits denote, then a
  newline; for a segment whose first character after the white space starts no number it
  holds \<^verbatim>\<open>NaN\<close> and a newline. The text of a number is its canonical decimal text: a
  minus sign when it is negative, then the digits of its absolute value with no leading
  zero. The decimal line of \<open>n\<close> gives the decimal line of \<open>2 * n\<close> alone. The whole step,
  on a closed stream, does this chunk by chunk and then closes.

  All of this is stated where the model is the code: on ASCII segments of at most 15
  characters, whose numbers and their doubles are then safe integers, and on safe
  integers. Two chunks with several segments are given in full.
\<close>

theorem doubleNumbers_one_chunk_per_segment:
  "(segs \<noteq> [] \<and> list_all (\<lambda>seg. ascii seg \<and> newline \<notin> set seg \<and> length seg \<le> 15) segs
      \<and> chunk = join_lines segs \<longrightarrow>
      doubleNumbers_transform chunk controller =
        controller @ concat (map (\<lambda>seg. doubleNumbers_transform seg [])
                               (filter (\<lambda>seg. \<not> blank seg) segs))
      \<and> list_all (\<lambda>seg. length (doubleNumbers_transform seg []) = 1)
           (filter (\<lambda>seg. \<not> blank seg) segs))
   \<and> (blank chunk \<longrightarrow> doubleNumbers_transform chunk controller = controller)
   \<and> (ascii seg \<and> newline \<notin> set seg \<and> length seg \<le> 15
      \<and> seg = ws @ sig @ ds @ rest \<and> blank ws \<and> sig \<in> {[], ''+'', ''-''}
      \<and> ds \<noteq> [] \<and> list_all is_digit ds \<and> (rest = [] \<or> \<not> is_digit (hd rest)) \<longrightarrow>
      doubleNumbers_transform seg [] =
        [Chunk (encode (string_of_number
            (Some (2 * (if sig = ''-'' then - int (decimal_value ds)
                        else int (decimal_value ds)))) @ [newline]))])
   \<and> (ascii seg \<and> newline \<notin> set seg \<and> seg = ws @ c # rest \<and> blank ws
      \<and> \<not> is_white_space c
      \<and> ((\<not> is_digit c \<and> c \<noteq> CHR ''+'' \<and> c \<noteq> CHR ''-'')
          \<or> ((c = CHR ''+'' \<or> c = CHR ''-'') \<and> (rest = [] \<or> \<not> is_digit (hd rest)))) \<longrightarrow>
      doubleNumbers_transform seg [] = [Chunk (encode (''NaN'' @ [newline]))])
   \<and> (safe_integer x \<longrightarrow>
      (\<exists>digits. string_of_number (Some x) = (if x < 0 then ''-'' else []) @ digits
         \<and> digits \<noteq> [] \<and> list_all is_digit digits \<and> int (decimal_value digits) = \<bar>x\<bar>
         \<and> (hd digits = CHR ''0'' \<longrightarrow> digits = ''0'')))
   \<and> (ascii seg \<and> length seg \<le> 15 \<and> parseInt seg = Some v \<longrightarrow>
      safe_integer v \<and> safe_integer (2 * v))
   \<and> (safe_integer (2 * n) \<longrightarrow>
      doubleNumbers_transform (encode (string_of_number (Some n) @ [newline])) controller =
        controller @ [Chunk (encode (string_of_number (Some (2 * n)) @ [newline]))])
   \<and> (list_all (\<lambda>segs. segs \<noteq> []
          \<and> list_all (\<lambda>seg. ascii seg \<and> newline \<notin> set seg \<and> length seg \<le> 15) segs) segss \<longrightarrow>
      await (fst (doubleNumbers (map (\<lambda>segs. Chunk (join_lines segs)) segss @ [Close]) j)) =
        concat (map (\<lambda>segs. concat (map (\<lambda>seg. doubleNumbers_transform seg [])
                                        (filter (\<lambda>seg. \<not> blank seg) segs))) segss) @ [Close])
   \<and> doubleNumbers_transform ''1\<newline>2\<newline>3'' [] = [Chunk ''2\<newline>'', Chunk ''4\<newline>'', Chunk ''6\<newline>'']
   \<and> doubleNumbers_transform '' -12abc\<newline>\<newline>  \<newline>xyz\<newline>+7\<newline>'' [Chunk ''0\<newline>'']
       = [Chunk ''0\<newline>'', Chunk ''-24\<newline>'', Chunk ''NaN\<newline>'', Chunk ''14\<newline>'']"
proof -
  have a: "doubleNumbers_transform chunk controller =
        controller @ concat (map (\<lambda>seg. doubleNumbers_transform seg [])
                               (filter (\<lambda>seg. \<not> blank seg) segs))
      \<and> list_all (\<lambda>seg. length (doubleNumbers_transform seg []) = 1)
           (filter (\<lambda>seg. \<not> blank seg) segs)"
    if "segs \<noteq> []"
       "list_all (\<lambda>seg. ascii seg \<and> newline \<notin> set seg \<and> length seg \<le> 15) segs"
       "chunk = join_lines segs"
  proof -
    from that(2) have nl: "list_all (\<lambda>seg. newline \<notin> set seg) segs"
      by (simp add: list_all_iff)
    show ?thesis
      using that(3) nl doubleNumbers_transform_segments[OF that(1) nl, of controller]
      by (simp add: list_all_iff doubleNumbers_transform_one_chunk)
  qed
  have b: "doubleNumbers_transform chunk controller = controller" if "blank chunk"
    using that by (rule doubleNumbers_transform_blank)
  have c: "doubleNumbers_transform seg [] =
        [Chunk (encode (string_of_number
            (Some (2 * (if sig = ''-'' then - int (decimal_value ds)
                        else int (decimal_value ds)))) @ [newline]))]"
    if "newline \<notin> set seg" "seg = ws @ sig @ ds @ rest" "blank ws" "sig \<in> {[], ''+'', ''-''}"
       "ds \<noteq> []" "list_all is_digit ds" "rest = [] \<or> \<not> is_digit (hd rest)"
  proof -
    have p: "parseInt seg
        = Some (if sig = ''-'' then - int (decimal_value ds) else int (decimal_value ds))"
      unfolding that(2) using that(3-7) by (intro parseInt_decimal) (simp_all add: blank_def)
    have "hd ds \<in> set seg" using that(2,5) by simp
    moreover have "\<not> is_white_space (hd ds)"
      using that(5,6) is_digit_facts[of "hd ds"] by (cases ds) simp_all
    ultimately have "\<not> blank seg" by (rule not_blank_with)
    then show ?thesis
      using that(1) p
      by (simp add: doubleNumbers_transform_segment doubleNumbers_lines_single mult.commute
            del: doubleNumbers_lines.simps)
  qed
  have d: "doubleNumbers_transform seg [] = [Chunk (encode (''NaN'' @ [newline]))]"
    if "newline \<notin> set seg" "seg = ws @ c # rest" "blank ws" "\<not> is_white_space c"
       "(\<not> is_digit c \<and> c \<noteq> CHR ''+'' \<and> c \<noteq> CHR ''-'')
          \<or> ((c = CHR ''+'' \<or> c = CHR ''-'') \<and> (rest = [] \<or> \<not> is_digit (hd rest)))"
  proof -
    have p: "parseInt seg = None"
      unfolding that(2) using that(3-5) by (intro parseInt_not_a_number) (simp_all add: blank_def)
    have "c \<in> set seg" using that(2) by simp
    then have "\<not> blank seg" using that(4) by (rule not_blank_with)
    then show ?thesis
      using that(1) p
      by (simp add: doubleNumbers_transform_segment doubleNumbers_lines_single
            string_of_number_def del: doubleNumbers_lines.simps)
  qed
  have e: "\<exists>digits. string_of_number (Some x) = (if x < 0 then ''-'' else []) @ digits
         \<and> digits \<noteq> [] \<and> list_all is_digit digits \<and> int (decimal_value digits) = \<bar>x\<bar>
         \<and> (hd digits = CHR ''0'' \<longrightarrow> digits = ''0'')"
    by (rule string_of_number_canonical)
  have f: "safe_integer v \<and> safe_integer (2 * v)" if "length seg \<le> 15" "parseInt seg = Some v"
    using that by (rule parseInt_safe)
  have g: "doubleNumbers_transform (encode (string_of_number (Some n) @ [newline])) controller =
        controller @ [Chunk (encode (string_of_number (Some (2 * n)) @ [newline]))]"
  proof -
    let ?s = "string_of_number (Some n)"
    from string_of_number_chars[of n] have s: "?s \<noteq> []" "newline \<notin> set ?s"
      "\<not> is_white_space (hd ?s)" by simp_all
    have nb: "\<not> blank ?s" using s(1,3) by (rule nonblank_hd)
    have "?s @ [newline] = join_lines [?s, []]" by simp
    moreover have "doubleNumbers_transform (join_lines [?s, []]) controller
        = controller @ doubleNumbers_transform ?s []"
      using doubleNumbers_transform_segments[of "[?s, []]" controller] s(2) nb
      by (simp add: blank_def)
    moreover have "doubleNumbers_transform ?s []
        = [Chunk (encode (string_of_number (Some (2 * n)) @ [newline]))]"
      using s(2) nb
      by (simp add: doubleNumbers_transform_segment doubleNumbers_lines_single
            parseInt_string_of_number mult.commute del: doubleNumbers_lines.simps)
    ultimately show ?thesis by (simp add: encode_def)
  qed
  have h: "await (fst (doubleNumbers (map (\<lambda>segs. Chunk (join_lines segs)) segss @ [Close]) j)) =
        concat (map (\<lambda>segs. concat (map (\<lambda>seg. doubleNumbers_transform seg [])
                                        (filter (\<lambda>seg. \<not> blank seg) segs))) segss) @ [Close]"
    if ok: "list_all (\<lambda>segs. segs \<noteq> []
          \<and> list_all (\<lambda>seg. ascii seg \<and> newline \<notin> set seg \<and> length seg \<le> 15) segs) segss"
  proof -
    have each: "doubleNumbers_transform (join_lines segs) []
        = concat (map (\<lambda>seg. doubleNumbers_transform seg []) (filter (\<lambda>seg. \<not> blank seg) segs))"
      if "segs \<in> set segss" for segs
    proof -
      from ok that have "segs \<noteq> []" "list_all (\<lambda>seg. newline \<notin> set seg) segs"
        by (auto simp: list_all_iff)
      from doubleNumbers_transform_segments[OF this, of "[]"] show ?thesis by simp
    qed
    have "map (\<lambda>segs. Chunk (join_lines segs)) segss = map Chunk (map join_lines segss)"
      by simp
    then have "await (fst (doubleNumbers (map (\<lambda>segs. Chunk (join_lines segs)) segss @ [Close]) j))
        = concat (map (\<lambda>chunk. doubleNumbers_transform chunk []) (map join_lines segss)) @ [Close]"
      by (simp only: doubleNumbers_closed_stream)
    also have "map (\<lambda>chunk. doubleNumbers_transform chunk []) (map join_lines segss)
        = map (\<lambda>segs. concat (map (\<lambda>seg. doubleNumbers_transform seg [])
                                  (filter (\<lambda>seg. \<not> blank seg) segs))) segss"
      using each by (simp add: o_def cong: map_cong)
    finally show ?thesis .
  qed
  have i: "doubleNumbers_transform ''1\<newline>2\<newline>3'' []
      = [Chunk ''2\<newline>'', Chunk ''4\<newline>'', Chunk ''6\<newline>'']"
    by code_simp
  have k: "doubleNumbers_transform '' -12abc\<newline>\<newline>  \<newline>xyz\<newline>+7\<newline>'' [Chunk ''0\<newline>'']
       = [Chunk ''0\<newline>'', Chunk ''-24\<newline>'', Chunk ''NaN\<newline>'', Chunk ''14\<newline>'']"
    by code_simp
  show ?thesis
    apply (intro conjI impI)
    subgoal by (elim conjE) (rule a[THEN conjunct1], assumption+)
    subgoal by (elim conjE) (rule a[THEN conjunct2], assumption+)
    subgoal by (rule b)
    subgoal by (elim conjE) (rule c, assumption+)
    subgoal by (elim conjE) (rule d, assumption+)
    subgoal by (rule e)
    subgoal by (elim conjE) (rule f[THEN conjunct1], assumption+)
    subgoal by (elim conjE) (rule f[THEN conjunct2], assumption+)
    subgoal by (rule g)
    subgoal by (rule h)
    subgoal by (rule i)
    subgoal by (rule k)
    done
qed

theorem doubleNumbers_one_chunk_per_segment_witness:
  "doubleNumbers_transform ''1\<newline>\<newline>2'' [Chunk ''0\<newline>'']
     = [Chunk ''0\<newline>''] @ doubleNumbers_transform ''1'' [] @ doubleNumbers_transform ''2'' []
   \<and> length (doubleNumbers_transform ''1'' []) = 1
   \<and> blank '' \<newline>\<newline>  ''
   \<and> doubleNumbers_transform '' \<newline>\<newline>  '' [Chunk ''4\<newline>''] = [Chunk ''4\<newline>'']
   \<and> doubleNumbers_transform '' -12abc'' [] = [Chunk ''-24\<newline>'']
   \<and> doubleNumbers_transform ''xyz'' [] = [Chunk ''NaN\<newline>'']
   \<and> doubleNumbers_transform ''+'' [] = [Chunk ''NaN\<newline>'']
   \<and> safe_integer (- 24) \<and> hd (string_of_number (Some (- 24))) = CHR ''-''
   \<and> parseInt ''21'' = Some 21 \<and> safe_integer 21 \<and> safe_integer (2 * 21)
   \<and> doubleNumbers_transform ''21\<newline>'' [] = [Chunk ''42\<newline>'']
   \<and> await (fst (doubleNumbers [Chunk ''1\<newline>'', Chunk ''2\<newline>3'', Close] []))
       = doubleNumbers_transform ''1'' [] @ doubleNumbers_transform ''2'' []
         @ doubleNumbers_transform ''3'' [] @ [Close]"
proof -
  note T = doubleNumbers_one_chunk_per_segment
  have nl: "newline = CHR 0x0A" by (rule newline_def)
  have ha: "[''1'', [], ''2''] \<noteq> []
      \<and> list_all (\<lambda>seg. ascii seg \<and> newline \<notin> set seg \<and> length seg \<le> 15) [''1'', [], ''2'']
      \<and> ''1\<newline>\<newline>2'' = join_lines [''1'', [], ''2'']"
    by (simp add: ascii_def nl)
  note a = T [where chunk = "''1\<newline>\<newline>2''" and segs = "[''1'', [], ''2'']"
        and controller = "[Chunk ''0\<newline>'']", THEN conjunct1, THEN mp, OF ha]
  have f1: "filter (\<lambda>seg. \<not> blank seg) [''1'', [], ''2''] = [''1'', ''2'']"
    by (simp add: blank_def is_white_space_def)
  from a[THEN conjunct1] have w1: "doubleNumbers_transform ''1\<newline>\<newline>2'' [Chunk ''0\<newline>'']
     = [Chunk ''0\<newline>''] @ doubleNumbers_transform ''1'' [] @ doubleNumbers_transform ''2'' []"
    unfolding f1 by simp
  from a[THEN conjunct2] have w2: "length (doubleNumbers_transform ''1'' []) = 1"
    unfolding f1 by simp
  have hb: "blank '' \<newline>\<newline>  ''"
    by (simp add: blank_def is_white_space_def)
  note w3 = T [where chunk = "'' \<newline>\<newline>  ''" and controller = "[Chunk ''4\<newline>'']",
        THEN conjunct2, THEN conjunct1, THEN mp, OF hb]
  have hc: "ascii '' -12abc'' \<and> newline \<notin> set '' -12abc'' \<and> length '' -12abc'' \<le> 15
      \<and> '' -12abc'' = '' '' @ ''-'' @ ''12'' @ ''abc'' \<and> blank '' ''
      \<and> ''-'' \<in> {[], ''+'', ''-''} \<and> ''12'' \<noteq> [] \<and> list_all is_digit ''12''
      \<and> (''abc'' = [] \<or> \<not> is_digit (hd ''abc''))"
    by (simp add: ascii_def nl blank_def is_white_space_def is_digit_def)
  have vc: "[Chunk (encode (string_of_number
            (Some (2 * (if ''-'' = ''-'' then - int (decimal_value ''12'')
                        else int (decimal_value ''12'')))) @ [newline]))] = [Chunk ''-24\<newline>'']"
    by code_simp
  note w4 = T [where seg = "'' -12abc''" and ws = "'' ''" and sig = "''-''" and ds = "''12''"
        and rest = "''abc''", THEN conjunct2, THEN conjunct2, THEN conjunct1, THEN mp, OF hc,
        unfolded vc]
  have hd1: "ascii ''xyz'' \<and> newline \<notin> set ''xyz'' \<and> ''xyz'' = [] @ CHR ''x'' # ''yz'' \<and> blank []
      \<and> \<not> is_white_space CHR ''x''
      \<and> ((\<not> is_digit CHR ''x'' \<and> CHR ''x'' \<noteq> CHR ''+'' \<and> CHR ''x'' \<noteq> CHR ''-'')
          \<or> ((CHR ''x'' = CHR ''+'' \<or> CHR ''x'' = CHR ''-'')
              \<and> (''yz'' = [] \<or> \<not> is_digit (hd ''yz''))))"
    by (simp add: ascii_def nl blank_def is_white_space_def is_digit_def)
  have hd2: "ascii ''+'' \<and> newline \<notin> set ''+'' \<and> ''+'' = [] @ CHR ''+'' # [] \<and> blank []
      \<and> \<not> is_white_space CHR ''+''
      \<and> ((\<not> is_digit CHR ''+'' \<and> CHR ''+'' \<noteq> CHR ''+'' \<and> CHR ''+'' \<noteq> CHR ''-'')
          \<or> ((CHR ''+'' = CHR ''+'' \<or> CHR ''+'' = CHR ''-'')
              \<and> ([] = [] \<or> \<not> is_digit (hd []))))"
    by (simp add: ascii_def nl blank_def is_white_space_def is_digit_def)
  have vd: "[Chunk (encode (''NaN'' @ [newline]))] = [Chunk ''NaN\<newline>'']"
    by code_simp
  note w5 = T [where seg = "''xyz''" and ws = "[]" and c = "CHR ''x''" and rest = "''yz''",
        THEN conjunct2, THEN conjunct2, THEN conjunct2, THEN conjunct1, THEN mp, OF hd1,
        unfolded vd]
  note w6 = T [where seg = "''+''" and ws = "[]" and c = "CHR ''+''" and rest = "[]",
        THEN conjunct2, THEN conjunct2, THEN conjunct2, THEN conjunct1, THEN mp, OF hd2,
        unfolded vd]
  have he: "safe_integer (- 24)" by (simp add: safe_integer_def)
  from T [where x = "- 24", THEN conjunct2, THEN conjunct2, THEN conjunct2, THEN conjunct2,
        THEN conjunct1, THEN mp, OF he]
  obtain digits where "string_of_number (Some (- 24)) = (if (- 24 :: int) < 0 then ''-'' else []) @ digits"
    by (elim exE conjE) (rule that)
  then have we: "hd (string_of_number (Some (- 24))) = CHR ''-''" by simp
  have p: "parseInt ''21'' = Some 21" by code_simp
  have hf: "ascii ''21'' \<and> length ''21'' \<le> 15 \<and> parseInt ''21'' = Some 21"
    using p by (simp add: ascii_def)
  note w7 = T [where seg = "''21''" and v = 21, THEN conjunct2, THEN conjunct2, THEN conjunct2,
        THEN conjunct2, THEN conjunct2, THEN conjunct1, THEN mp, OF hf]
  have hg: "safe_integer (2 * 21)" by (simp add: safe_integer_def)
  have vg: "encode (string_of_number (Some 21) @ [newline]) = ''21\<newline>''"
    "encode (string_of_number (Some (2 * 21)) @ [newline]) = ''42\<newline>''"
    by code_simp+
  note g = T [where n = 21 and controller = "[]", THEN conjunct2, THEN conjunct2,
        THEN conjunct2, THEN conjunct2, THEN conjunct2, THEN conjunct2, THEN conjunct1,
        THEN mp, OF hg, unfolded vg]
  from g have w8: "doubleNumbers_transform ''21\<newline>'' [] = [Chunk ''42\<newline>'']" by simp
  have hh: "list_all (\<lambda>segs. segs \<noteq> []
          \<and> list_all (\<lambda>seg. ascii seg \<and> newline \<notin> set seg \<and> length seg \<le> 15) segs)
        [[''1'', []], [''2'', ''3'']]"
    by (simp add: ascii_def nl)
  note h = T [where segss = "[[''1'', []], [''2'', ''3'']]" and j = "[]", THEN conjunct2,
        THEN conjunct2, THEN conjunct2, THEN conjunct2, THEN conjunct2, THEN conjunct2,
        THEN conjunct2, THEN conjunct1, THEN mp, OF hh]
  have f2: "filter (\<lambda>seg. \<not> blank seg) [''1'', []] = [''1'']"
    "filter (\<lambda>seg. \<not> blank seg) [''2'', ''3''] = [''2'', ''3'']"
    by (simp_all add: blank_def is_white_space_def)
  have j2: "join_lines [''1'', []] = ''1\<newline>''" "join_lines [''2'', ''3''] = ''2\<newline>3''"
    by (simp_all add: nl)
  from h have w9: "await (fst (doubleNumbers [Chunk ''1\<newline>'', Chunk ''2\<newline>3'', Close] []))
       = doubleNumbers_transform ''1'' [] @ doubleNumbers_transform ''2'' []
         @ doubleNumbers_transform ''3'' [] @ [Close]"
    unfolding list.map f2 j2 by simp
  from w1 w2 hb w3 w4 w5 w6 he we p w7 w8 w9 show ?thesis
    by (intro conjI) (elim conjE, assumption)+
qed

text \<open>
  Claim C3. The producing step enqueues exactly the ten chunks \<^verbatim>\<open>0\n\<close> to \<^verbatim>\<open>9\n\<close>, in
  order, and then closes. \<open>streamWorkflow\<close> starts the producing step and then the
  transforming step, and its stream gives the chunks \<^verbatim>\<open>0\n\<close>, \<^verbatim>\<open>2\n\<close>, \<dots>, \<^verbatim>\<open>18\n\<close>, in
  the same order, and then the closure: it is the stream obtained by handing each of the
  ten chunks to the transformer, in order, and closing after the last of them.
\<close>

theorem streamWorkflow_doubles_ten_lines:
  "fst (genBenchStream []) =
     Promise GenBenchStream
       (map Chunk [''0\<newline>'', ''1\<newline>'', ''2\<newline>'', ''3\<newline>'', ''4\<newline>'',
                   ''5\<newline>'', ''6\<newline>'', ''7\<newline>'', ''8\<newline>'', ''9\<newline>''] @ [Close])
   \<and> streamWorkflow =
       (map Chunk [''0\<newline>'', ''2\<newline>'', ''4\<newline>'', ''6\<newline>'', ''8\<newline>'',
                   ''10\<newline>'', ''12\<newline>'', ''14\<newline>'', ''16\<newline>'', ''18\<newline>''] @ [Close],
        [GenBenchStream, DoubleNumbers])
   \<and> fst streamWorkflow =
       close (foldl (\<lambda>controller chunk. doubleNumbers_transform chunk controller) []
                [''0\<newline>'', ''1\<newline>'', ''2\<newline>'', ''3\<newline>'', ''4\<newline>'',
                 ''5\<newline>'', ''6\<newline>'', ''7\<newline>'', ''8\<newline>'', ''9\<newline>''])"
proof -
  have g: "genBenchStream_start 0 [] =
     map Chunk [''0\<newline>'', ''1\<newline>'', ''2\<newline>'', ''3\<newline>'', ''4\<newline>'',
                ''5\<newline>'', ''6\<newline>'', ''7\<newline>'', ''8\<newline>'', ''9\<newline>''] @ [Close]"
    by code_simp
  have w: "streamWorkflow =
       (map Chunk [''0\<newline>'', ''2\<newline>'', ''4\<newline>'', ''6\<newline>'', ''8\<newline>'',
                   ''10\<newline>'', ''12\<newline>'', ''14\<newline>'', ''16\<newline>'', ''18\<newline>''] @ [Close],
        [GenBenchStream, DoubleNumbers])"
    by code_simp
  have p: "fst streamWorkflow =
       close (foldl (\<lambda>controller chunk. doubleNumbers_transform chunk controller) []
                [''0\<newline>'', ''1\<newline>'', ''2\<newline>'', ''3\<newline>'', ''4\<newline>'',
                 ''5\<newline>'', ''6\<newline>'', ''7\<newline>'', ''8\<newline>'', ''9\<newline>''])"
    unfolding streamWorkflow_def genBenchStream_def doubleNumbers_def await_def g pipeThrough_def
      pipeThrough_loop_closed
    by simp
  from g w p show ?thesis by (simp add: genBenchStream_def)
qed

subsection \<open>The bootstrap\<close>

text \<open>
  Claim C4. When \<^verbatim>\<open>NEXT_RUNTIME\<close> is \<^verbatim>\<open>'edge'\<close>, the bootstrap only registers telemetry:
  it does not import the workflow API module, does not call the start operation, and
  makes no promise. For every other value, and when the variable is unset, it imports the
  module once; and when the module loads and gives a world, the optional start operation
  is called once if the world has one, and not at all if it has none.
\<close>

theorem edge_runtime_skips_kickstart:
  "(NEXT_RUNTIME h = Some ''edge'' \<longrightarrow>
      actions (instrumentation h) = [RegisterOTel ''example-nextjs-workflow'']
      \<and> Import ''workflow/api'' \<notin> set (actions (instrumentation h))
      \<and> Start \<notin> set (actions (instrumentation h))
      \<and> kickstarted (instrumentation h) = None)
   \<and> (NEXT_RUNTIME h \<noteq> Some ''edge'' \<longrightarrow>
      count_list (actions (instrumentation h)) (Import ''workflow/api'') = 1
      \<and> (\<forall>api w. import_workflow_api h = Inr api \<and> getWorld api = Inr w \<longrightarrow>
            count_list (actions (instrumentation h)) Start
              = (if start w = None then 0 else 1)))"
  by (auto simp: instrumentation_def kickstart_def Let_def split: sum.splits option.splits)

theorem edge_runtime_skips_kickstart_witness:
  "actions (instrumentation \<lparr>NEXT_RUNTIME = Some ''edge'',
        import_workflow_api = Inr \<lparr>getWorld = Inr \<lparr>start = Some Fulfilled\<rparr>\<rparr>\<rparr>)
     = [RegisterOTel ''example-nextjs-workflow'']
   \<and> count_list (actions (instrumentation \<lparr>NEXT_RUNTIME = None,
        import_workflow_api = Inr \<lparr>getWorld = Inr \<lparr>start = Some Fulfilled\<rparr>\<rparr>\<rparr>)) Start = 1
   \<and> count_list (actions (instrumentation \<lparr>NEXT_RUNTIME = Some ''nodejs'',
        import_workflow_api = Inr \<lparr>getWorld = Inr \<lparr>start = Some Fulfilled\<rparr>\<rparr>\<rparr>))
        (Import ''workflow/api'') = 1"
  using
    edge_runtime_skips_kickstart [of "\<lparr>NEXT_RUNTIME = Some ''edge'',
        import_workflow_api = Inr \<lparr>getWorld = Inr \<lparr>start = Some Fulfilled\<rparr>\<rparr>\<rparr>"]
    edge_runtime_skips_kickstart [of "\<lparr>NEXT_RUNTIME = None,
        import_workflow_api = Inr \<lparr>getWorld = Inr \<lparr>start = Some Fulfilled\<rparr>\<rparr>\<rparr>"]
    edge_runtime_skips_kickstart [of "\<lparr>NEXT_RUNTIME = Some ''nodejs'',
        import_workflow_api = Inr \<lparr>getWorld = Inr \<lparr>start = Some Fulfilled\<rparr>\<rparr>\<rparr>"]
  by simp

text \<open>
  Claim C5. Outside the edge runtime the bootstrap registers telemetry under the service
  name \<^verbatim>\<open>example-nextjs-workflow\<close> and then imports the workflow API module; when the
  module loads and its world has a start operation, the run is exactly: register
  telemetry, import the module, get the world, call start.
\<close>

theorem non_edge_bootstrap_actions:
  "NEXT_RUNTIME h \<noteq> Some ''edge'' \<Longrightarrow>
     take 2 (actions (instrumentation h))
       = [RegisterOTel ''example-nextjs-workflow'', Import ''workflow/api'']
     \<and> (\<forall>api w s. import_workflow_api h = Inr api \<and> getWorld api = Inr w \<and> start w = Some s \<longrightarrow>
           actions (instrumentation h)
             = [RegisterOTel ''example-nextjs-workflow'', Import ''workflow/api'', GetWorld, Start])"
  by (auto simp: instrumentation_def kickstart_def Let_def split: sum.splits option.splits)

theorem non_edge_bootstrap_actions_witness:
  "NEXT_RUNTIME \<lparr>NEXT_RUNTIME = None,
        import_workflow_api = Inr \<lparr>getWorld = Inr \<lparr>start = Some Fulfilled\<rparr>\<rparr>\<rparr> \<noteq> Some ''edge''
   \<and> actions (instrumentation \<lparr>NEXT_RUNTIME = None,
        import_workflow_api = Inr \<lparr>getWorld = Inr \<lparr>start = Some Fulfilled\<rparr>\<rparr>\<rparr>)
       = [RegisterOTel ''example-nextjs-workflow'', Import ''workflow/api'', GetWorld, Start]"
  using non_edge_bootstrap_actions [of "\<lparr>NEXT_RUNTIME = None,
        import_workflow_api = Inr \<lparr>getWorld = Inr \<lparr>start = Some Fulfilled\<rparr>\<rparr>\<rparr>"]
  by simp

text \<open>
  Claim C6, as stated, counts a world without a \<^verbatim>\<open>start\<close> method among the failures that
  propagate. It is not one: the call is the optional call \<^verbatim>\<open>start?.()\<close>, which is skipped
  when the method is missing, and the promise of the bootstrap is fulfilled.
\<close>

theorem missing_start_is_not_a_failure:
  "instrumentation \<lparr>NEXT_RUNTIME = None,
        import_workflow_api = Inr \<lparr>getWorld = Inr \<lparr>start = None\<rparr>\<rparr>\<rparr>
     = \<lparr>actions = [RegisterOTel ''example-nextjs-workflow'', Import ''workflow/api'', GetWorld],
        kickstarted = Some Fulfilled\<rparr>"
  by (simp add: instrumentation_def kickstart_def)

text \<open>
  Claim C6, amended. Outside the edge runtime, a module that fails to load, a
  \<^verbatim>\<open>getWorld\<close> that throws and a start operation whose promise is rejected each reject
  the promise of the bootstrap with the same error, unchanged, and each boundary action
  has been performed once: nothing is caught, tried again or classified. A world
  without a start method is no failure: start is not called and the promise is
  fulfilled.
\<close>

theorem bootstrap_failures_propagate:
  "NEXT_RUNTIME h \<noteq> Some ''edge'' \<Longrightarrow>
     (import_workflow_api h = Inl e \<longrightarrow>
        kickstarted (instrumentation h) = Some (Rejected e)
        \<and> actions (instrumentation h)
            = [RegisterOTel ''example-nextjs-workflow'', Import ''workflow/api''])
     \<and> (import_workflow_api h = Inr api \<and> getWorld api = Inl e \<longrightarrow>
        kickstarted (instrumentation h) = Some (Rejected e)
        \<and> actions (instrumentation h)
            = [RegisterOTel ''example-nextjs-workflow'', Import ''workflow/api'', GetWorld])
     \<and> (import_workflow_api h = Inr api \<and> getWorld api = Inr w \<and> start w = Some (Rejected e) \<longrightarrow>
        kickstarted (instrumentation h) = Some (Rejected e)
        \<and> actions (instrumentation h)
            = [RegisterOTel ''example-nextjs-workflow'', Import ''workflow/api'', GetWorld, Start])
     \<and> (import_workflow_api h = Inr api \<and> getWorld api = Inr w \<and> start w = None \<longrightarrow>
        kickstarted (instrumentation h) = Some Fulfilled
        \<and> actions (instrumentation h)
            = [RegisterOTel ''example-nextjs-workflow'', Import ''workflow/api'', GetWorld])"
  by (simp add: instrumentation_def kickstart_def)

theorem bootstrap_failures_propagate_witness:
  "kickstarted (instrumentation \<lparr>NEXT_RUNTIME = None,
        import_workflow_api = Inl (Error ''module not found'')\<rparr>)
     = Some (Rejected (Error ''module not found''))
   \<and> kickstarted (instrumentation \<lparr>NEXT_RUNTIME = None,
        import_workflow_api = Inr \<lparr>getWorld = Inl (Error ''no world'')\<rparr>\<rparr>)
     = Some (Rejected (Error ''no world''))
   \<and> instrumentation \<lparr>NEXT_RUNTIME = None,
        import_workflow_api = Inr \<lparr>getWorld = Inr \<lparr>start = Some (Rejected (Error ''boom''))\<rparr>\<rparr>\<rparr>
     = \<lparr>actions = [RegisterOTel ''example-nextjs-workflow'', Import ''workflow/api'',
                    GetWorld, Start],
        kickstarted = Some (Rejected (Error ''boom''))\<rparr>
   \<and> kickstarted (instrumentation \<lparr>NEXT_RUNTIME = None,
        import_workflow_api = Inr \<lparr>getWorld = Inr \<lparr>start = None\<rparr>\<rparr>\<rparr>)
     = Some Fulfilled"
  using
    bootstrap_failures_propagate [of "\<lparr>NEXT_RUNTIME = None,
        import_workflow_api = Inl (Error ''module not found'')\<rparr>" "Error ''module not found''"]
    bootstrap_failures_propagate [of "\<lparr>NEXT_RUNTIME = None,
        import_workflow_api = Inr \<lparr>getWorld = Inl (Error ''no world'')\<rparr>\<rparr>" "Error ''no world''"
        "\<lparr>getWorld = Inl (Error ''no world'')\<rparr>"]
    bootstrap_failures_propagate [of "\<lparr>NEXT_RUNTIME = None,
        import_workflow_api = Inr \<lparr>getWorld = Inr \<lparr>start = Some (Rejected (Error ''boom''))\<rparr>\<rparr>\<rparr>"
        "Error ''boom''" "\<lparr>getWorld = Inr \<lparr>start = Some (Rejected (Error ''boom''))\<rparr>\<rparr>"
        "\<lparr>start = Some (Rejected (Error ''boom''))\<rparr>"]
    bootstrap_failures_propagate [of "\<lparr>NEXT_RUNTIME = None,
        import_workflow_api = Inr \<lparr>getWorld = Inr \<lparr>start = None\<rparr>\<rparr>\<rparr>"
        "Error ''x''" "\<lparr>getWorld = Inr \<lparr>start = None\<rparr>\<rparr>" "\<lparr>start = None\<rparr>"]
  by (simp add: run.defs)

end
